theory Spec2Isabelle
  imports Main "HOL-Library.Word"
begin

unbundle bit_operations_syntax

section \<open>Bitboards, squares and colours\<close>

text \<open>
  \<^verbatim>\<open>using Bitboard = unsigned long long\<close>: a 64-bit word. A \<^verbatim>\<open>Square\<close> is an
  \<^verbatim>\<open>enum Square : int\<close> whose values are \<open>0 .. 63\<close>; the enumerators are listed
  file-major in the source (\<^verbatim>\<open>A1, A2, ..., A8, B1, ...\<close>), so \<^verbatim>\<open>A2\<close> is 1,
  \<^verbatim>\<open>E1\<close> is 32 and \<^verbatim>\<open>H1\<close> is 56. The model keeps the numeric value.
\<close>

type_synonym Bitboard = "64 word"
type_synonym Square = nat

definition A1 :: Square where "A1 = 0"
definition H1 :: Square where "H1 = 56"

definition BB_EMPTY :: Bitboard where "BB_EMPTY = 0"
definition BB_ALL :: Bitboard where "BB_ALL = 0xffffffffffffffff"

text \<open>\<^verbatim>\<open>BB_SQUARES[i] = 1ULL << i\<close>, an array of 64 entries.\<close>

definition BB_SQUARES :: "Square \<Rightarrow> Bitboard" where
  "BB_SQUARES i = push_bit i 1"

text \<open>\<^verbatim>\<open>BB_FILES[i] = 0x0101010101010101ULL << i\<close>, \<^verbatim>\<open>BB_RANKS[i] = 0xffULL << (8 * i)\<close>.\<close>

definition BB_FILES :: "nat \<Rightarrow> Bitboard" where
  "BB_FILES i = push_bit i 0x0101010101010101"

definition BB_RANKS :: "nat \<Rightarrow> Bitboard" where
  "BB_RANKS i = push_bit (8 * i) 0xff"

definition BB_FILE_A :: Bitboard where "BB_FILE_A = BB_FILES 0"
definition BB_FILE_H :: Bitboard where "BB_FILE_H = BB_FILES 7"
definition BB_RANK_1 :: Bitboard where "BB_RANK_1 = BB_RANKS 0"
definition BB_RANK_2 :: Bitboard where "BB_RANK_2 = BB_RANKS 1"
definition BB_RANK_7 :: Bitboard where "BB_RANK_7 = BB_RANKS 6"
definition BB_RANK_8 :: Bitboard where "BB_RANK_8 = BB_RANKS 7"
definition BB_BACKRANKS :: Bitboard where "BB_BACKRANKS = BB_RANK_1 OR BB_RANK_8"

definition BB_CORNERS :: Bitboard where
  "BB_CORNERS = push_bit 0 1 OR push_bit 7 1 OR push_bit 56 1 OR push_bit 63 1"

text \<open>
  \<^verbatim>\<open>enum Color : bool { WHITE, BLACK }\<close>: \<^verbatim>\<open>WHITE\<close> is \<^verbatim>\<open>false\<close> (0) and
  \<^verbatim>\<open>BLACK\<close> is \<^verbatim>\<open>true\<close> (1).
\<close>

datatype Color = WHITE | BLACK

fun Color_of_bool :: "bool \<Rightarrow> Color" where
  "Color_of_bool False = WHITE"
| "Color_of_bool True = BLACK"

fun bool_of_Color :: "Color \<Rightarrow> bool" where
  "bool_of_Color WHITE = False"
| "bool_of_Color BLACK = True"

text \<open>
  \<^verbatim>\<open>(Color)bb\<close> for a bitboard \<^verbatim>\<open>bb\<close>. The program is built with \<^verbatim>\<open>g++\<close>
  (\<^verbatim>\<open>Makefile\<close>), which keeps the lowest bit of the integer in the one-bit enumeration:
  \<^verbatim>\<open>(Color)1\<close> is \<^verbatim>\<open>BLACK\<close>, and \<^verbatim>\<open>(Color)0\<close>, \<^verbatim>\<open>(Color)2\<close> and \<^verbatim>\<open>(Color)0x10\<close> are
  \<^verbatim>\<open>WHITE\<close>. On the values 0 and 1 this is also the conversion through \<^verbatim>\<open>bool\<close>.
\<close>

definition Color_of_Bitboard :: "Bitboard \<Rightarrow> Color" where
  "Color_of_Bitboard bb = Color_of_bool (bit bb 0)"

text \<open>\<^verbatim>\<open>!color\<close>, used as an index or cast back to \<^verbatim>\<open>Color\<close>.\<close>

definition not_Color :: "Color \<Rightarrow> Color" where
  "not_Color c = Color_of_bool (\<not> bool_of_Color c)"

text \<open>
  \<^verbatim>\<open>enum class PieceType { PAWN = 1, KNIGHT, BISHOP, ROOK, QUEEN, KING }\<close> has the
  underlying type \<^verbatim>\<open>int\<close>, and the source casts table indices (0 and 7 among them) to
  it, so the model keeps the integer.
\<close>

type_synonym PieceType = int

definition PAWN :: PieceType where "PAWN = 1"
definition KNIGHT :: PieceType where "KNIGHT = 2"
definition BISHOP :: PieceType where "BISHOP = 3"
definition ROOK :: PieceType where "ROOK = 4"
definition QUEEN :: PieceType where "QUEEN = 5"
definition KING :: PieceType where "KING = 6"

lemmas PieceType_defs = PAWN_def KNIGHT_def BISHOP_def ROOK_def QUEEN_def KING_def

subsection \<open>Bit scans\<close>

text \<open>
  \<^verbatim>\<open>__builtin_ctzll\<close> counts the zero bits below the lowest set bit and
  \<^verbatim>\<open>__builtin_clzll\<close> the zero bits above the highest set bit. Both are undefined
  at 0 in C++; the model returns 64 there, and no theorem below depends on that value.
\<close>

definition ctzll :: "Bitboard \<Rightarrow> nat" where
  "ctzll bb = (case find (bit bb) [0..<64] of Some i \<Rightarrow> i | None \<Rightarrow> 64)"

definition clzll :: "Bitboard \<Rightarrow> nat" where
  "clzll bb = (case find (bit bb) (rev [0..<64]) of Some i \<Rightarrow> 63 - i | None \<Rightarrow> 64)"

text \<open>
  \<^verbatim>\<open>
  constexpr auto lsb(Bitboard bb) -> int { return __builtin_ctzll(bb); }
  constexpr auto msb(Bitboard bb) -> int { return __builtin_clzll(bb); }
  \<close>
\<close>

definition lsb :: "Bitboard \<Rightarrow> nat" where
  "lsb bb = ctzll bb"

definition msb :: "Bitboard \<Rightarrow> nat" where
  "msb bb = clzll bb"

definition square_file :: "int \<Rightarrow> int" where
  "square_file square = square AND 7"

definition square_rank :: "int \<Rightarrow> int" where
  "square_rank square = drop_bit 3 square"

section \<open>SquareSet\<close>

text \<open>
  The class holds one field, \<^verbatim>\<open>Bitboard mask\<close>. \<^verbatim>\<open>pop\<close> mutates it and returns a
  square, so the model returns the square with the new mask. The only way out of
  \<^verbatim>\<open>pop\<close> other than \<^verbatim>\<open>return\<close> would be a \<^verbatim>\<open>throw\<close>; the source has none:
  \<^verbatim>\<open>
  auto pop() -> Square {
      if (!mask)
          std::invalid_argument("pop from empty SquareSet");
      auto square = (Square)lsb(mask);
      mask &= (mask - 1);
      return square;
  }
  \<close>
  The statement under the \<^verbatim>\<open>if\<close> builds an exception object and discards it.
  The exceptions that the source throws are \<^verbatim>\<open>std::invalid_argument\<close>; \<open>OutOfRange\<close>
  is the \<^verbatim>\<open>std::out_of_range\<close> of \<^verbatim>\<open>std::unordered_map::at\<close>, and \<open>EmptyMoveStack\<close> is
  the error kind that the specification names for \<^verbatim>\<open>pop\<close> on a board without moves.
\<close>

datatype error = InvalidArgument | EmptyMoveStack | OutOfRange

definition SquareSet_pop :: "Bitboard \<Rightarrow> error + (Square \<times> Bitboard)" where
  "SquareSet_pop m =
     (let square = lsb m;
          m' = m AND (m - 1)
      in Inr (square, m'))"

section \<open>BaseBoard\<close>

text \<open>
  \<^verbatim>\<open>std::array<Bitboard, 2> occupied_co\<close> is indexed by \<^verbatim>\<open>Color\<close>; the record has
  one field per index, read and written through \<open>occupied_co\<close> and \<open>set_occupied_co\<close>.
\<close>

record BaseBoard =
  occupied_co_W :: Bitboard
  occupied_co_B :: Bitboard
  pawns :: Bitboard
  knights :: Bitboard
  bishops :: Bitboard
  rooks :: Bitboard
  queens :: Bitboard
  kings :: Bitboard
  promoted :: Bitboard
  occupied :: Bitboard

fun occupied_co :: "'a BaseBoard_scheme \<Rightarrow> Color \<Rightarrow> Bitboard" where
  "occupied_co b WHITE = occupied_co_W b"
| "occupied_co b BLACK = occupied_co_B b"

fun set_occupied_co :: "Color \<Rightarrow> Bitboard \<Rightarrow> 'a BaseBoard_scheme \<Rightarrow> 'a BaseBoard_scheme" where
  "set_occupied_co WHITE v b = b\<lparr>occupied_co_W := v\<rparr>"
| "set_occupied_co BLACK v b = b\<lparr>occupied_co_B := v\<rparr>"

record Piece =
  piece_type :: PieceType
  color :: Color

definition reset_board :: "'a BaseBoard_scheme \<Rightarrow> 'a BaseBoard_scheme" where
  "reset_board b = b\<lparr>
     pawns := BB_RANK_2 OR BB_RANK_7,
     knights := push_bit 1 1 OR push_bit 6 1 OR push_bit 57 1 OR push_bit 62 1,
     bishops := push_bit 2 1 OR push_bit 5 1 OR push_bit 58 1 OR push_bit 61 1,
     rooks := BB_CORNERS,
     queens := push_bit 3 1 OR push_bit 59 1,
     kings := push_bit 4 1 OR push_bit 60 1,
     promoted := BB_EMPTY,
     occupied_co_W := BB_RANK_1 OR BB_RANK_2,
     occupied_co_B := BB_RANK_7 OR BB_RANK_8,
     occupied := BB_RANK_1 OR BB_RANK_2 OR BB_RANK_7 OR BB_RANK_8\<rparr>"

definition clear_board :: "'a BaseBoard_scheme \<Rightarrow> 'a BaseBoard_scheme" where
  "clear_board b = b\<lparr>
     pawns := BB_EMPTY, knights := BB_EMPTY, bishops := BB_EMPTY, rooks := BB_EMPTY,
     queens := BB_EMPTY, kings := BB_EMPTY, promoted := BB_EMPTY,
     occupied_co_W := BB_EMPTY, occupied_co_B := BB_EMPTY, occupied := BB_EMPTY\<rparr>"

definition empty_BaseBoard :: BaseBoard where
  "empty_BaseBoard = \<lparr>occupied_co_W = 0, occupied_co_B = 0, pawns = 0, knights = 0,
     bishops = 0, rooks = 0, queens = 0, kings = 0, promoted = 0, occupied = 0\<rparr>"

definition starting_BaseBoard :: BaseBoard where
  "starting_BaseBoard = reset_board empty_BaseBoard"

definition piece_type_at :: "'a BaseBoard_scheme \<Rightarrow> Square \<Rightarrow> PieceType option" where
  "piece_type_at b square =
     (let m = BB_SQUARES square in
      if occupied b AND m = 0 then None
      else if pawns b AND m \<noteq> 0 then Some PAWN
      else if knights b AND m \<noteq> 0 then Some KNIGHT
      else if bishops b AND m \<noteq> 0 then Some BISHOP
      else if rooks b AND m \<noteq> 0 then Some ROOK
      else if queens b AND m \<noteq> 0 then Some QUEEN
      else Some KING)"

text \<open>
  \<^verbatim>\<open>
  auto mask = BB_SQUARES[square];
  auto color = (Color)(occupied_co[WHITE] & mask);
  return Piece(piece_type.value(), color);
  \<close>
\<close>

definition piece_at :: "'a BaseBoard_scheme \<Rightarrow> Square \<Rightarrow> Piece option" where
  "piece_at b square =
     (case piece_type_at b square of
        Some pt \<Rightarrow>
          (let m = BB_SQUARES square;
               c = Color_of_Bitboard (occupied_co b WHITE AND m)
           in Some \<lparr>piece_type = pt, color = c\<rparr>)
      | None \<Rightarrow> None)"

definition color_at :: "'a BaseBoard_scheme \<Rightarrow> Square \<Rightarrow> Color option" where
  "color_at b square =
     (let m = BB_SQUARES square in
      if occupied_co b WHITE AND m \<noteq> 0 then Some WHITE
      else if occupied_co b BLACK AND m \<noteq> 0 then Some BLACK
      else None)"

text \<open>
  \<^verbatim>\<open>
  auto king_mask = occupied_co[color] & kings & ~promoted;
  if (king_mask) { return (Square)msb(king_mask); } else { return std::nullopt; }
  \<close>
\<close>

definition king :: "'a BaseBoard_scheme \<Rightarrow> Color \<Rightarrow> Square option" where
  "king b c =
     (let king_mask = occupied_co b c AND kings b AND NOT (promoted b) in
      if king_mask \<noteq> 0 then Some (msb king_mask) else None)"

subsection \<open>Pawn attack table\<close>

text \<open>
  \<^verbatim>\<open>constexpr U64 BB_PAWN_ATTACKS[2][64]\<close>, the literal of the source. Row 0 holds the
  squares diagonally below a square, row 1 the squares diagonally above it.
\<close>

definition BB_PAWN_ATTACKS_0 :: "Bitboard list" where
  "BB_PAWN_ATTACKS_0 = [
    0, 0, 0, 0, 0, 0, 0, 0, 2, 5, 10, 20, 40, 80, 160, 64, 512, 1280, 2560, 5120, 10240,
    20480, 40960, 16384, 131072, 327680, 655360, 1310720, 2621440, 5242880, 10485760,
    4194304, 33554432, 83886080, 167772160, 335544320, 671088640, 1342177280, 2684354560,
    1073741824, 8589934592, 21474836480, 42949672960, 85899345920, 171798691840,
    343597383680, 687194767360, 274877906944, 2199023255552, 5497558138880, 10995116277760,
    21990232555520, 43980465111040, 87960930222080, 175921860444160, 70368744177664,
    562949953421312, 1407374883553280, 2814749767106560, 5629499534213120,
    11258999068426240, 22517998136852480, 45035996273704960, 18014398509481984]"

definition BB_PAWN_ATTACKS_1 :: "Bitboard list" where
  "BB_PAWN_ATTACKS_1 = [
    512, 1280, 2560, 5120, 10240, 20480, 40960, 16384, 131072, 327680, 655360, 1310720,
    2621440, 5242880, 10485760, 4194304, 33554432, 83886080, 167772160, 335544320,
    671088640, 1342177280, 2684354560, 1073741824, 8589934592, 21474836480, 42949672960,
    85899345920, 171798691840, 343597383680, 687194767360, 274877906944, 2199023255552,
    5497558138880, 10995116277760, 21990232555520, 43980465111040, 87960930222080,
    175921860444160, 70368744177664, 562949953421312, 1407374883553280, 2814749767106560,
    5629499534213120, 11258999068426240, 22517998136852480, 45035996273704960,
    18014398509481984, 144115188075855872, 360287970189639680, 720575940379279360,
    1441151880758558720, 2882303761517117440, 5764607523034234880, 11529215046068469760,
    4611686018427387904, 0, 0, 0, 0, 0, 0, 0, 0]"

text \<open>\<^verbatim>\<open>BB_PAWN_ATTACKS[c][sq]\<close> with a \<^verbatim>\<open>Color\<close> or \<^verbatim>\<open>bool\<close> as the first index.\<close>

definition BB_PAWN_ATTACKS :: "Color \<Rightarrow> Square \<Rightarrow> Bitboard" where
  "BB_PAWN_ATTACKS c sq =
     (if bool_of_Color c then BB_PAWN_ATTACKS_1 ! sq else BB_PAWN_ATTACKS_0 ! sq)"

section \<open>Square iteration\<close>

text \<open>
  \<^verbatim>\<open>popcount\<close> is \<^verbatim>\<open>__builtin_popcountll\<close>: the number of set bits.
\<close>

definition popcount :: "Bitboard \<Rightarrow> nat" where
  "popcount bb = length (filter (bit bb) [0..<64])"

text \<open>
  \<^verbatim>\<open>scan_reversed(bb)\<close> is the range of \<^verbatim>\<open>SquareIterator<Square, Reverse>\<close>: the
  iterator dereferences to \<^verbatim>\<open>63 - __builtin_clzll(bb)\<close>, steps by
  \<^verbatim>\<open>bb ^= BB_SQUARES[63 - __builtin_clzll(bb)]\<close> and equals the sentinel when
  \<^verbatim>\<open>bb\<close> is 0.
\<close>

function scan_reversed :: "Bitboard \<Rightarrow> Square list" where
  "scan_reversed bb =
     (if bb = 0 then []
      else (63 - clzll bb) # scan_reversed (bb XOR BB_SQUARES (63 - clzll bb)))"
  by pat_completeness auto
termination
proof (relation "measure popcount")
  show "wf (measure popcount)" by simp
next
  fix bb :: Bitboard
  assume "bb \<noteq> 0"
  then obtain n where "bit bb n" by (auto simp: bit_eq_iff)
  then have "n < 64" by (auto dest: bit_imp_le_length)
  with \<open>bit bb n\<close> have "find (bit bb) (rev [0..<64]) \<noteq> None"
    by (auto simp: find_None_iff)
  then obtain i where f: "find (bit bb) (rev [0..<64]) = Some i" by blast
  then have i: "bit bb i" by (auto simp: find_Some_iff)
  then have lt: "i < 64" by (auto dest: bit_imp_le_length)
  from f lt have c: "63 - clzll bb = i" by (simp add: clzll_def)
  let ?P = "bit (bb XOR BB_SQUARES i)"
  have sub: "?P k \<Longrightarrow> bit bb k" for k
    using i lt by (auto simp: BB_SQUARES_def bit_xor_iff bit_push_bit_iff bit_1_iff bit_exp_iff)
  have notP: "\<not> ?P i"
    using i lt by (simp add: BB_SQUARES_def bit_xor_iff bit_push_bit_iff bit_exp_iff)
  have "filter ?P [0..<64] = filter ?P (filter (bit bb) [0..<64])"
    by (auto intro: filter_cong dest: sub)
  moreover have "i \<in> set (filter (bit bb) [0..<64])"
    using i lt by simp
  ultimately have "popcount (bb XOR BB_SQUARES i) < popcount bb"
    unfolding popcount_def using notP length_filter_less by metis
  then show "(bb XOR BB_SQUARES (63 - clzll bb), bb) \<in> measure popcount"
    by (simp add: c)
qed

declare scan_reversed.simps [simp del]

section \<open>Moves\<close>

record Move =
  from_square :: Square
  to_square :: Square
  promotion :: "PieceType option"
  drop :: "PieceType option"

definition null :: Move where
  "null = \<lparr>from_square = A1, to_square = A1, promotion = None, drop = None\<rparr>"

text \<open>The table of the source: upper-case names, listed file by file.\<close>

definition SQUARE_NAMES :: "string list" where
  "SQUARE_NAMES = [
    ''A1'', ''A2'', ''A3'', ''A4'', ''A5'', ''A6'', ''A7'', ''A8'',
    ''B1'', ''B2'', ''B3'', ''B4'', ''B5'', ''B6'', ''B7'', ''B8'',
    ''C1'', ''C2'', ''C3'', ''C4'', ''C5'', ''C6'', ''C7'', ''C8'',
    ''D1'', ''D2'', ''D3'', ''D4'', ''D5'', ''D6'', ''D7'', ''D8'',
    ''E1'', ''E2'', ''E3'', ''E4'', ''E5'', ''E6'', ''E7'', ''E8'',
    ''F1'', ''F2'', ''F3'', ''F4'', ''F5'', ''F6'', ''F7'', ''F8'',
    ''G1'', ''G2'', ''G3'', ''G4'', ''G5'', ''G6'', ''G7'', ''G8'',
    ''H1'', ''H2'', ''H3'', ''H4'', ''H5'', ''H6'', ''H7'', ''H8'']"

definition PIECE_SYMBOLS :: "string list" where
  "PIECE_SYMBOLS = [''-'', ''p'', ''n'', ''b'', ''r'', ''q'', ''k'']"

text \<open>
  \<^verbatim>\<open>index(c, val)\<close> is \<^verbatim>\<open>std::distance(c.begin(), std::find(c.begin(), c.end(), val))\<close>:
  the position of the first element equal to \<^verbatim>\<open>val\<close>, and the size of the container
  when there is none.
\<close>

definition index :: "'a list \<Rightarrow> 'a \<Rightarrow> nat" where
  "index c val = length (takeWhile (\<lambda>x. x \<noteq> val) c)"

text \<open>\<^verbatim>\<open>std::tolower\<close> on one character (the C locale).\<close>

definition tolower :: "char \<Rightarrow> char" where
  "tolower c =
     (if 65 \<le> (of_char c :: nat) \<and> (of_char c :: nat) \<le> 90
      then char_of ((of_char c :: nat) + 32) else c)"

text \<open>\<^verbatim>\<open>uci.substr(pos, n)\<close> for \<^verbatim>\<open>pos\<close> within the string.\<close>

definition substr :: "string \<Rightarrow> nat \<Rightarrow> nat \<Rightarrow> string" where
  "substr s pos n = take n (List.drop pos s)"

text \<open>
  \<^verbatim>\<open>Move::from_uci\<close>. Every \<^verbatim>\<open>throw std::invalid_argument\<close> is \<open>Inl InvalidArgument\<close>.
  The source looks a character up in \<^verbatim>\<open>PIECE_SYMBOLS\<close>, a table of strings; the model
  compares each entry with the one-character string. The looked-up index is cast to
  \<^verbatim>\<open>Square\<close> or \<^verbatim>\<open>PieceType\<close> as it is.
\<close>

definition from_uci :: "string \<Rightarrow> error + Move" where
  "from_uci uci =
     (if uci = ''0000'' then Inr null
      else if length uci = 4 \<and> uci ! 1 = CHR ''@'' then
        (let drp = index PIECE_SYMBOLS [tolower (uci ! 0)];
             square = index SQUARE_NAMES (List.drop 2 uci)
         in Inr \<lparr>from_square = square, to_square = square,
                  promotion = None, drop = Some (int drp)\<rparr>)
      else if 4 \<le> length uci \<and> length uci \<le> 5 then
        (let from_sq = index SQUARE_NAMES (substr uci 0 2);
             to_sq = index SQUARE_NAMES (substr uci 2 2);
             promo = (if length uci = 5 then Some (int (index PIECE_SYMBOLS [uci ! 4]))
                      else None)
         in if from_sq = to_sq then Inl InvalidArgument
            else Inr \<lparr>from_square = from_sq, to_square = to_sq,
                       promotion = promo, drop = None\<rparr>)
      else Inl InvalidArgument)"


section \<open>Editing a BaseBoard\<close>

text \<open>
  A name of the source that starts with an underscore has the prefix \<open>u_\<close> here.
  \<^verbatim>\<open>_remove_piece_at\<close> returns the removed piece type and mutates the board; the
  model returns both.
\<close>

definition u_remove_piece_at ::
  "Square \<Rightarrow> 'a BaseBoard_scheme \<Rightarrow> PieceType option \<times> 'a BaseBoard_scheme" where
  "u_remove_piece_at square b =
     (let pt = piece_type_at b square;
          m = BB_SQUARES square;
          r = (if pt = Some PAWN then Some (b\<lparr>pawns := pawns b XOR m\<rparr>)
               else if pt = Some KNIGHT then Some (b\<lparr>knights := knights b XOR m\<rparr>)
               else if pt = Some BISHOP then Some (b\<lparr>bishops := bishops b XOR m\<rparr>)
               else if pt = Some ROOK then Some (b\<lparr>rooks := rooks b XOR m\<rparr>)
               else if pt = Some QUEEN then Some (b\<lparr>queens := queens b XOR m\<rparr>)
               else if pt = Some KING then Some (b\<lparr>kings := kings b XOR m\<rparr>)
               else None)
      in case r of
           None \<Rightarrow> (None, b)
         | Some b1 \<Rightarrow>
             (pt, b1\<lparr>occupied := occupied b1 XOR m,
                      occupied_co_W := occupied_co_W b1 AND NOT m,
                      occupied_co_B := occupied_co_B b1 AND NOT m,
                      promoted := promoted b1 AND NOT m\<rparr>))"

definition remove_piece_at ::
  "Square \<Rightarrow> 'a BaseBoard_scheme \<Rightarrow> Piece option \<times> 'a BaseBoard_scheme" where
  "remove_piece_at square b =
     (let c = Color_of_Bitboard (occupied_co b WHITE AND BB_SQUARES square);
          (pt, b') = u_remove_piece_at square b
      in case pt of
           Some t \<Rightarrow> (Some \<lparr>piece_type = t, color = c\<rparr>, b')
         | None \<Rightarrow> (None, b'))"

definition u_set_piece_at ::
  "Square \<Rightarrow> PieceType \<Rightarrow> Color \<Rightarrow> bool \<Rightarrow> 'a BaseBoard_scheme \<Rightarrow> 'a BaseBoard_scheme" where
  "u_set_piece_at square pt c was_promoted b =
     (let b0 = snd (u_remove_piece_at square b);
          m = BB_SQUARES square;
          r = (if pt = PAWN then Some (b0\<lparr>pawns := pawns b0 OR m\<rparr>)
               else if pt = KNIGHT then Some (b0\<lparr>knights := knights b0 OR m\<rparr>)
               else if pt = BISHOP then Some (b0\<lparr>bishops := bishops b0 OR m\<rparr>)
               else if pt = ROOK then Some (b0\<lparr>rooks := rooks b0 OR m\<rparr>)
               else if pt = QUEEN then Some (b0\<lparr>queens := queens b0 OR m\<rparr>)
               else if pt = KING then Some (b0\<lparr>kings := kings b0 OR m\<rparr>)
               else None)
      in case r of
           None \<Rightarrow> b0
         | Some b1 \<Rightarrow>
             (let b2 = b1\<lparr>occupied := occupied b1 XOR m\<rparr>;
                  b3 = set_occupied_co c (occupied_co b2 c XOR m) b2
              in if was_promoted then b3\<lparr>promoted := promoted b3 XOR m\<rparr> else b3))"

definition set_piece_at ::
  "Square \<Rightarrow> Piece option \<Rightarrow> bool \<Rightarrow> 'a BaseBoard_scheme \<Rightarrow> 'a BaseBoard_scheme" where
  "set_piece_at square piece was_promoted b =
     (case piece of
        None \<Rightarrow> snd (u_remove_piece_at square b)
      | Some p \<Rightarrow> u_set_piece_at square (piece_type p) (color p) was_promoted b)"

subsection \<open>The invariants of the data model\<close>

text \<open>
  The six piece-type bitboards are pairwise disjoint and their union is \<open>occupied\<close>;
  the two colour bitboards are disjoint and their union is \<open>occupied\<close>; \<open>promoted\<close>
  is a subset of \<open>occupied\<close>.
\<close>

fun pairwise_disjoint :: "Bitboard list \<Rightarrow> bool" where
  "pairwise_disjoint [] = True"
| "pairwise_disjoint (x # xs) = (list_all (\<lambda>y. x AND y = 0) xs \<and> pairwise_disjoint xs)"

definition invariants :: "'a BaseBoard_scheme \<Rightarrow> bool" where
  "invariants b \<longleftrightarrow>
     pairwise_disjoint [pawns b, knights b, bishops b, rooks b, queens b, kings b]
     \<and> pawns b OR knights b OR bishops b OR rooks b OR queens b OR kings b = occupied b
     \<and> occupied_co b WHITE AND occupied_co b BLACK = 0
     \<and> occupied_co b WHITE OR occupied_co b BLACK = occupied b
     \<and> promoted b AND NOT (occupied b) = 0"

section \<open>Chess960 positions\<close>

text \<open>
  \<^verbatim>\<open>
  for (n1 = 0; n1 < 4; ++n1){
      n2 = n + (3 - n1) * (4 - n1); // 2 - 5
      if (n1 < n2 && 1 <= n2 && n2 <= 4)
          break;}
  \<close>
  The loop leaves \<^verbatim>\<open>n1\<close> and \<^verbatim>\<open>n2\<close> behind. \<^verbatim>\<open>n2\<close> has no value before the
  first pass, which always runs; the model starts it at 0.
\<close>

function n1_n2_loop :: "int \<Rightarrow> int \<Rightarrow> int \<Rightarrow> int \<times> int" where
  "n1_n2_loop n n1 n2 =
     (if n1 < 4 then
        (let n2' = n + (3 - n1) * (4 - n1) in
         if n1 < n2' \<and> 1 \<le> n2' \<and> n2' \<le> 4 then (n1, n2')
         else n1_n2_loop n (n1 + 1) n2')
      else (n1, n2))"
  by pat_completeness auto
termination
  by (relation "measure (\<lambda>(n, n1, n2). nat (4 - n1))") auto

declare n1_n2_loop.simps [simp del]

text \<open>One pass of the knight loop over the files, on \<^verbatim>\<open>(knights, used, n1, n2)\<close>.\<close>

definition knights_step ::
  "nat \<Rightarrow> Bitboard \<times> nat list \<times> int \<times> int \<Rightarrow> Bitboard \<times> nat list \<times> int \<times> int" where
  "knights_step i st =
     (case st of (kn, used, n1, n2) \<Rightarrow>
        if i \<notin> set used then
          (if n1 = 0 \<or> n2 = 0
           then (kn OR (BB_FILES i AND BB_BACKRANKS), used @ [i], n1 - 1, n2 - 1)
           else (kn, used, n1 - 1, n2 - 1))
        else (kn, used, n1, n2))"

text \<open>
  \<^verbatim>\<open>_set_chess960_pos\<close>; the locals \<^verbatim>\<open>n__\<close> and \<^verbatim>\<open>n_\<close> are \<open>n_uu\<close> and
  \<open>n_u\<close>. \<^verbatim>\<open>divmod\<close> is \<^verbatim>\<open>(x / y, x % y)\<close> of C++; its operands are
  not negative behind the range check, where truncation and \<open>div\<close> agree.
\<close>

definition divmod :: "int \<Rightarrow> int \<Rightarrow> int \<times> int" where
  "divmod x y = (x div y, x mod y)"

definition u_set_chess960_pos ::
  "int \<Rightarrow> 'a BaseBoard_scheme \<Rightarrow> error + 'a BaseBoard_scheme" where
  "u_set_chess960_pos scharnagl b =
     (if \<not> (0 \<le> scharnagl \<and> scharnagl \<le> 959) then Inl InvalidArgument
      else
        (let (n_uu, bw) = divmod scharnagl 4;
             (n_u, bb) = divmod n_uu 4;
             (n, q) = divmod n_u 6;
             (n1, n2) = n1_n2_loop n 0 0;
             bw_file = nat (bw * 2 + 1);
             bb_file = nat (bb * 2);
             b1 = b\<lparr>bishops := (BB_FILES bw_file OR BB_FILES bb_file) AND BB_BACKRANKS\<rparr>;
             q_file = nat q;
             q_file = q_file + (if min bw_file bb_file \<le> q_file then 1 else 0);
             q_file = q_file + (if max bw_file bb_file \<le> q_file then 1 else 0);
             b2 = b1\<lparr>queens := BB_FILES q_file AND BB_BACKRANKS\<rparr>;
             used = [bw_file, bb_file, q_file];
             (kn, used, n1, n2) = fold knights_step [0..<8] (BB_EMPTY, used, n1, n2);
             b3 = b2\<lparr>knights := kn\<rparr>;
             (b4, used) = (case find (\<lambda>i. i \<notin> set used) [0..<8] of
                             Some i \<Rightarrow> (b3\<lparr>rooks := BB_FILES i AND BB_BACKRANKS\<rparr>, used @ [i])
                           | None \<Rightarrow> (b3, used));
             (b5, used) = (case find (\<lambda>i. i \<notin> set used) [1..<8] of
                             Some i \<Rightarrow> (b4\<lparr>kings := BB_FILES i AND BB_BACKRANKS\<rparr>, used @ [i])
                           | None \<Rightarrow> (b4, used));
             b6 = (case find (\<lambda>i. i \<notin> set used) [2..<8] of
                     Some i \<Rightarrow> b5\<lparr>rooks := rooks b5 OR (BB_FILES i AND BB_BACKRANKS)\<rparr>
                   | None \<Rightarrow> b5)
         in Inr (b6\<lparr>pawns := BB_RANK_2 OR BB_RANK_7,
                     occupied_co_W := BB_RANK_1 OR BB_RANK_2,
                     occupied_co_B := BB_RANK_7 OR BB_RANK_8,
                     occupied := BB_RANK_1 OR BB_RANK_2 OR BB_RANK_7 OR BB_RANK_8,
                     promoted := BB_EMPTY\<rparr>)))"

definition set_chess960_pos ::
  "int \<Rightarrow> 'a BaseBoard_scheme \<Rightarrow> error + 'a BaseBoard_scheme" where
  "set_chess960_pos scharnagl b = u_set_chess960_pos scharnagl b"

text \<open>
  The state of the scan over the first rank in \<^verbatim>\<open>chess960_pos\<close>:
  \<^verbatim>\<open>q, qf, n0, n1, n0f, n1f, rf\<close>.
\<close>

record scan960 =
  s_q :: int
  s_qf :: bool
  s_n0 :: int
  s_n1 :: int
  s_n0f :: bool
  s_n1f :: bool
  s_rf :: int

text \<open>The body of the scan for one square; \<open>None\<close> is the early \<^verbatim>\<open>return std::nullopt\<close>.\<close>

definition scan960_step :: "'a BaseBoard_scheme \<Rightarrow> Square \<Rightarrow> scan960 \<Rightarrow> scan960 option" where
  "scan960_step b square s =
     (let bb = BB_SQUARES square in
      if bb AND queens b \<noteq> 0 then Some (s\<lparr>s_qf := True\<rparr>)
      else if bb AND rooks b \<noteq> 0 \<or> bb AND kings b \<noteq> 0 then
        (if bb AND kings b \<noteq> 0 \<and> s_rf s \<noteq> 1 then None
         else
           (let s1 = (if bb AND kings b \<noteq> 0 then s else s\<lparr>s_rf := s_rf s + 1\<rparr>);
                s2 = (if \<not> s_qf s1 then s1\<lparr>s_q := s_q s1 + 1\<rparr> else s1);
                s3 = (if \<not> s_n0f s2 then s2\<lparr>s_n0 := s_n0 s2 + 1\<rparr>
                      else if \<not> s_n1f s2 then s2\<lparr>s_n1 := s_n1 s2 + 1\<rparr>
                      else s2)
            in Some s3))
      else if bb AND knights b \<noteq> 0 then
        (let s1 = (if \<not> s_qf s then s\<lparr>s_q := s_q s + 1\<rparr> else s);
             s2 = (if \<not> s_n0f s1 then s1\<lparr>s_n0f := True\<rparr>
                   else if \<not> s_n1f s1 then s1\<lparr>s_n1f := True\<rparr>
                   else s1)
         in Some s2)
      else Some s)"

fun scan960_loop :: "'a BaseBoard_scheme \<Rightarrow> Square list \<Rightarrow> scan960 \<Rightarrow> scan960 option" where
  "scan960_loop b [] s = Some s"
| "scan960_loop b (square # squares) s =
     (case scan960_step b square s of
        None \<Rightarrow> None
      | Some s' \<Rightarrow> scan960_loop b squares s')"

text \<open>
  \<^verbatim>\<open>chess960_pos\<close>. The first three tests are written
  \<^verbatim>\<open>
  if (occupied_co[WHITE] != BB_RANK_1 | BB_RANK_2) return std::nullopt;
  if (occupied_co[BLACK] != BB_RANK_7 | BB_RANK_8) return std::nullopt;
  if (pawns != BB_RANK_2 | BB_RANK_7) return std::nullopt;
  \<close>
  and \<^verbatim>\<open>!=\<close> binds tighter than \<^verbatim>\<open>|\<close>: each condition is the comparison, as 0
  or 1, or-ed with the second mask. The scan runs over the squares from \<^verbatim>\<open>A1\<close> up
  to \<^verbatim>\<open>H1\<close> of the \<^verbatim>\<open>Square\<close> enumeration, that is 0 to 56.
\<close>

definition chess960_pos :: "'a BaseBoard_scheme \<Rightarrow> int option" where
  "chess960_pos b =
     (if (of_bool (occupied_co b WHITE \<noteq> BB_RANK_1) OR BB_RANK_2) \<noteq> 0 then None
      else if (of_bool (occupied_co b BLACK \<noteq> BB_RANK_7) OR BB_RANK_8) \<noteq> 0 then None
      else if (of_bool (pawns b \<noteq> BB_RANK_2) OR BB_RANK_7) \<noteq> 0 then None
      else if promoted b \<noteq> 0 then None
      else
        (let brnqk_vals = [(bishops b, 4), (rooks b, 4), (knights b, 4),
                           (queens b, 2), (kings b, 2)] in
         if list_ex (\<lambda>(pieces_bb, count). popcount pieces_bb \<noteq> count) brnqk_vals then None
         else if list_ex (\<lambda>(bb, _). push_bit 56 (BB_RANK_1 AND bb) \<noteq> (BB_RANK_8 AND bb))
                   brnqk_vals then None
         else
           (let x = bishops b AND (2 + 8 + 32 + 128) in
            if x = 0 then None
            else
              (let bs1 = int (lsb x) - 1;
                   cc_pos = bs1;
                   x = bishops b AND (1 + 4 + 16 + 64)
               in if x = 0 then None
                  else
                    (let bs2 = int (lsb x) * 2;
                         cc_pos = cc_pos + bs2;
                         n0s = [0, 4, 7, 9 :: int]
                     in case scan960_loop b [A1..<H1 + 1]
                               \<lparr>s_q = 0, s_qf = False, s_n0 = 0, s_n1 = 0,
                                s_n0f = False, s_n1f = False, s_rf = 0\<rparr> of
                          None \<Rightarrow> None
                        | Some s \<Rightarrow>
                            if s_n0 s < 4 \<and> s_n1f s \<and> s_qf s then
                              (let cc_pos = cc_pos + s_q s * 16;
                                   krn = n0s ! nat (s_n0 s) + s_n1 s;
                                   cc_pos = cc_pos + krn * 96
                               in Some cc_pos)
                            else None)))))"

section \<open>Board\<close>

text \<open>
  \<^verbatim>\<open>_BoardState\<close>, the snapshot that \<^verbatim>\<open>Board\<close> keeps per pushed move. Its fields
  have the names of the board's fields in the source; the record prefixes them with
  \<open>st_\<close>.
\<close>

record u_BoardState =
  st_occupied_w :: Bitboard
  st_occupied_b :: Bitboard
  st_pawns :: Bitboard
  st_knights :: Bitboard
  st_bishops :: Bitboard
  st_rooks :: Bitboard
  st_queens :: Bitboard
  st_kings :: Bitboard
  st_promoted :: Bitboard
  st_occupied :: Bitboard
  st_castling_rights :: Bitboard
  st_halfmove_clock :: int
  st_fullmove_number :: int
  st_ep_square :: "Square option"
  st_turn :: Color

text \<open>\<^verbatim>\<open>class Board : public BaseBoard\<close>; \<open>u_stack\<close> is \<^verbatim>\<open>_stack\<close>.\<close>

record Board = BaseBoard +
  castling_rights :: Bitboard
  halfmove_clock :: int
  fullmove_number :: int
  ep_square :: "Square option"
  turn :: Color
  chess960 :: bool
  move_stack :: "Move list"
  u_stack :: "u_BoardState list"

text \<open>The constructor \<^verbatim>\<open>_BoardState(const Board& board)\<close>.\<close>

definition BoardState_of :: "Board \<Rightarrow> u_BoardState" where
  "BoardState_of board = \<lparr>
     st_occupied_w = occupied_co board WHITE,
     st_occupied_b = occupied_co board BLACK,
     st_pawns = pawns board,
     st_knights = knights board,
     st_bishops = bishops board,
     st_rooks = rooks board,
     st_queens = queens board,
     st_kings = kings board,
     st_promoted = promoted board,
     st_occupied = occupied board,
     st_castling_rights = castling_rights board,
     st_halfmove_clock = halfmove_clock board,
     st_fullmove_number = fullmove_number board,
     st_ep_square = ep_square board,
     st_turn = turn board\<rparr>"

text \<open>\<^verbatim>\<open>_BoardState::restore(Board& board)\<close>.\<close>

definition restore :: "u_BoardState \<Rightarrow> Board \<Rightarrow> Board" where
  "restore st board = board\<lparr>
     pawns := st_pawns st,
     knights := st_knights st,
     bishops := st_bishops st,
     rooks := st_rooks st,
     queens := st_queens st,
     kings := st_kings st,
     occupied_co_W := st_occupied_w st,
     occupied_co_B := st_occupied_b st,
     occupied := st_occupied st,
     promoted := st_promoted st,
     turn := st_turn st,
     castling_rights := st_castling_rights st,
     ep_square := st_ep_square st,
     halfmove_clock := st_halfmove_clock st,
     fullmove_number := st_fullmove_number st\<rparr>"

subsection \<open>The en-passant generator\<close>

text \<open>
  \<^verbatim>\<open>EPIterator(board, from_mask, to_mask)\<close> computes the bitboard of capturers and
  walks it with a reverse square iterator; each position dereferences to
  \<^verbatim>\<open>Move(capturer, board.ep_square.value())\<close>. The guard is written
  \<^verbatim>\<open>!board.ep_square.has_value() || !BB_SQUARES[ep] & to_mask\<close>, where \<^verbatim>\<open>!\<close> applies
  to the table entry before \<^verbatim>\<open>&\<close>. The rank mask is \<^verbatim>\<open>BB_RANKS[board.turn ? 4 : 3]\<close>.
\<close>

definition EPIterator_capturers :: "Board \<Rightarrow> Bitboard \<Rightarrow> Bitboard \<Rightarrow> Bitboard" where
  "EPIterator_capturers board from_mask to_mask =
     (case ep_square board of
        None \<Rightarrow> 0
      | Some ep \<Rightarrow>
          if (of_bool (BB_SQUARES ep = 0) AND to_mask) \<noteq> 0 then 0
          else if BB_SQUARES ep AND occupied board \<noteq> 0 then 0
          else pawns board AND occupied_co board (turn board) AND from_mask AND
               BB_PAWN_ATTACKS (not_Color (turn board)) ep AND
               BB_RANKS (if bool_of_Color (turn board) then 4 else 3))"

definition EPIterator :: "Board \<Rightarrow> Bitboard \<Rightarrow> Bitboard \<Rightarrow> Move list" where
  "EPIterator board from_mask to_mask =
     (case ep_square board of
        None \<Rightarrow> []
      | Some ep \<Rightarrow>
          map (\<lambda>capturer. \<lparr>from_square = capturer, to_square = ep,
                             promotion = None, drop = None\<rparr>)
              (scan_reversed (EPIterator_capturers board from_mask to_mask)))"

subsection \<open>Make and unmake\<close>

text \<open>
  \<^verbatim>\<open>Board::push\<close> and \<^verbatim>\<open>Board::pop\<close> are called in the source
  (\<^verbatim>\<open>gives_check\<close>, \<^verbatim>\<open>can_claim_threefold_repetition\<close>) and defined nowhere in it.
  The definitions below follow section 4.6 of the specification, step by step, on top
  of \<open>BoardState_of\<close>, \<open>restore\<close>, \<open>u_remove_piece_at\<close> and \<open>u_set_piece_at\<close>, which
  are the source's.
\<close>

text \<open>
  Modelled from the spec: \<^verbatim>\<open>Board::push\<close> is missing; a move is an en-passant capture
  when a pawn moves diagonally onto the en-passant square and that square is empty.
\<close>

definition is_en_passant :: "Board \<Rightarrow> Move \<Rightarrow> bool" where
  "is_en_passant board move \<longleftrightarrow>
     ep_square board = Some (to_square move)
     \<and> pawns board AND BB_SQUARES (from_square move) \<noteq> 0
     \<and> (from_square move + 7 = to_square move \<or> from_square move + 9 = to_square move
        \<or> to_square move + 7 = from_square move \<or> to_square move + 9 = from_square move)
     \<and> occupied board AND BB_SQUARES (to_square move) = 0"

text \<open>
  Modelled from the spec: \<^verbatim>\<open>Board::push\<close> is missing; a move is a capture when its
  target holds a piece of the opponent or when it is an en-passant capture.
\<close>

definition is_capture :: "Board \<Rightarrow> Move \<Rightarrow> bool" where
  "is_capture board move \<longleftrightarrow>
     BB_SQUARES (to_square move) AND occupied_co board (not_Color (turn board)) \<noteq> 0
     \<or> is_en_passant board move"

text \<open>
  Modelled from the spec: \<^verbatim>\<open>Board::push\<close> is missing; a castling move is a king move
  onto a rook of its own side (the Chess960 encoding) or over two files or more (the
  encoding by the king's final square).
\<close>

definition is_castling :: "Board \<Rightarrow> Move \<Rightarrow> bool" where
  "is_castling board move \<longleftrightarrow>
     kings board AND BB_SQUARES (from_square move) \<noteq> 0
     \<and> (rooks board AND occupied_co board (turn board) AND BB_SQUARES (to_square move) \<noteq> 0
        \<or> from_square move mod 8 + 2 \<le> to_square move mod 8
        \<or> to_square move mod 8 + 2 \<le> from_square move mod 8)"

text \<open>
  Modelled from the spec: \<^verbatim>\<open>Board::push\<close> is missing; step 8 and the castling part of
  step 7. The king goes to the c-file and the rook to the d-file on the a-side, to the
  g-file and the f-file on the h-side, on the rank of the king; the rook is the one on
  the target square, or else the corner rook of that side.
\<close>

definition push_castling :: "Move \<Rightarrow> Color \<Rightarrow> Board \<Rightarrow> Board" where
  "push_castling move us board =
     (let rank_base = 8 * (from_square move div 8);
          a_side = to_square move mod 8 < from_square move mod 8;
          rook_from =
            (if rooks board AND occupied_co board us AND BB_SQUARES (to_square move) \<noteq> 0
             then to_square move
             else if a_side then rank_base else rank_base + 7);
          king_to = rank_base + (if a_side then 2 else 6);
          rook_to = rank_base + (if a_side then 3 else 5);
          b1 = snd (u_remove_piece_at (from_square move) board);
          b2 = snd (u_remove_piece_at rook_from b1);
          b3 = u_set_piece_at king_to KING us False b2
      in u_set_piece_at rook_to ROOK us False b3)"

text \<open>
  Modelled from the spec: \<^verbatim>\<open>Board::push\<close> is missing; step 9. A king move clears the
  rights on the back rank of its side, and a move from or onto a rook square clears
  that square's right.
\<close>

definition push_castling_rights :: "Board \<Rightarrow> Move \<Rightarrow> Bitboard" where
  "push_castling_rights board move =
     (let cr = castling_rights board AND NOT (BB_SQUARES (from_square move))
                 AND NOT (BB_SQUARES (to_square move))
      in if kings board AND BB_SQUARES (from_square move) \<noteq> 0
         then cr AND NOT (if turn board = WHITE then BB_RANK_1 else BB_RANK_8)
         else cr)"

text \<open>
  Modelled from the spec: \<^verbatim>\<open>Board::push\<close> is missing; the nine steps of section 4.6.
  The questions about the move (mover, capture, castling, double step) are asked of
  the position before the move.
\<close>

definition push :: "Move \<Rightarrow> Board \<Rightarrow> Board" where
  "push move board =
     (let b1 = board\<lparr>u_stack := u_stack board @ [BoardState_of board]\<rparr>;
          b2 = b1\<lparr>move_stack := move_stack b1 @ [move]\<rparr>;
          us = turn board;
          src = from_square move;
          dst = to_square move;
          mover = piece_type_at board src;
          capture = is_capture board move;
          b3 = b2\<lparr>halfmove_clock :=
                    (if capture \<or> mover = Some PAWN then 0 else halfmove_clock b2 + 1)\<rparr>;
          b4 = (if us = BLACK then b3\<lparr>fullmove_number := fullmove_number b3 + 1\<rparr> else b3);
          b5 = b4\<lparr>turn := not_Color us\<rparr>;
          b6 = b5\<lparr>ep_square :=
                    (if mover = Some PAWN \<and> (src + 16 = dst \<or> dst + 16 = src)
                     then Some ((src + dst) div 2) else None)\<rparr>;
          b7 = (case mover of
                  None \<Rightarrow> b6
                | Some pt \<Rightarrow>
                    if is_castling board move then push_castling move us b6
                    else
                      (let was_promoted = (promoted board AND BB_SQUARES src \<noteq> 0);
                           c1 = snd (u_remove_piece_at src b6);
                           c2 = (if is_en_passant board move
                                 then snd (u_remove_piece_at
                                        (if us = WHITE then dst - 8 else dst + 8) c1)
                                 else c1)
                       in case promotion move of
                            Some promo \<Rightarrow> u_set_piece_at dst promo us True c2
                          | None \<Rightarrow> u_set_piece_at dst pt us was_promoted c2))
      in b7\<lparr>castling_rights := push_castling_rights board move\<rparr>)"

text \<open>
  Modelled from the spec: \<^verbatim>\<open>Board::pop\<close> is missing; it restores the top snapshot,
  pops the move stack and returns the move, and it reports \<open>EmptyMoveStack\<close> when no
  move has been pushed.
\<close>

definition pop :: "Board \<Rightarrow> error + (Move \<times> Board)" where
  "pop board =
     (if move_stack board = [] \<or> u_stack board = [] then Inl EmptyMoveStack
      else
        (let move = last (move_stack board);
             st = last (u_stack board);
             b1 = board\<lparr>move_stack := butlast (move_stack board),
                        u_stack := butlast (u_stack board)\<rparr>
         in Inr (move, restore st b1)))"

subsection \<open>Board reset\<close>

text \<open>
  \<^verbatim>\<open>Board::clear_stack\<close>, \<^verbatim>\<open>Board::reset_board\<close> (the override that also clears the
  stacks) and \<^verbatim>\<open>Board::reset\<close>.
\<close>

definition clear_stack :: "Board \<Rightarrow> Board" where
  "clear_stack board = board\<lparr>move_stack := [], u_stack := []\<rparr>"

definition Board_reset_board :: "Board \<Rightarrow> Board" where
  "Board_reset_board board = clear_stack (reset_board board)"

definition reset :: "Board \<Rightarrow> Board" where
  "reset board =
     Board_reset_board (board\<lparr>turn := WHITE, castling_rights := BB_CORNERS, ep_square := None,
        halfmove_clock := 0, fullmove_number := 1\<rparr>)"

section \<open>Repetition\<close>

text \<open>
  \<^verbatim>\<open>hscnt::HashCounter\<close> wraps a \<^verbatim>\<open>std::unordered_map<Hashable, int>\<close>:
  \<^verbatim>\<open>
  void add(Hashable key) {
      if (hash_map.contains(key)) { hash_map[key]++; } else { hash_map[key] = 0; }
  }
  auto count(Hashable key) -> int {
      if (hash_map.contains(key)) { return hash_map[key]; } else { return 0; }
  }
  \<close>
\<close>

type_synonym 'k HashCounter = "'k \<rightharpoonup> int"

definition HashCounter_add :: "'k \<Rightarrow> 'k HashCounter \<Rightarrow> 'k HashCounter" where
  "HashCounter_add key hash_map =
     (case hash_map key of
        Some c \<Rightarrow> hash_map(key \<mapsto> c + 1)
      | None \<Rightarrow> hash_map(key \<mapsto> 0))"

definition HashCounter_count :: "'k HashCounter \<Rightarrow> 'k \<Rightarrow> int" where
  "HashCounter_count hash_map key =
     (case hash_map key of Some c \<Rightarrow> c | None \<Rightarrow> 0)"

text \<open>
  Modelled from the spec: \<^verbatim>\<open>Board::_transposition_key\<close> is missing; the key is the
  tuple of all piece bitboards, the side to move, the effective castling rights and
  the effective en-passant square, which counts only if an en-passant capture is
  available. The two functions it needs, \<^verbatim>\<open>clean_castling_rights\<close> and
  \<^verbatim>\<open>has_legal_en_passant\<close>, are missing as well and are parameters.
\<close>

type_synonym TranspositionKey =
  "Bitboard \<times> Bitboard \<times> Bitboard \<times> Bitboard \<times> Bitboard \<times> Bitboard \<times> Bitboard \<times> Bitboard
   \<times> Color \<times> Bitboard \<times> Square option"

definition u_transposition_key ::
  "(Board \<Rightarrow> Bitboard) \<Rightarrow> (Board \<Rightarrow> bool) \<Rightarrow> Board \<Rightarrow> TranspositionKey" where
  "u_transposition_key clean_castling_rights has_legal_en_passant board =
     (pawns board, knights board, bishops board, rooks board, queens board, kings board,
      occupied_co board WHITE, occupied_co board BLACK, turn board,
      clean_castling_rights board,
      if has_legal_en_passant board then ep_square board else None)"

text \<open>
  \<^verbatim>\<open>Board::can_claim_threefold_repetition\<close>. The functions that it calls and that the
  source does not define are parameters: \<open>tkey\<close> is \<^verbatim>\<open>_transposition_key\<close>,
  \<open>is_irreversible\<close> and \<open>generate_legal_moves\<close> take the board they are called on.
  \<^verbatim>\<open>push\<close> and \<^verbatim>\<open>pop\<close> are the ones above. The first loop is
  \<^verbatim>\<open>
  while (!move_stack.empty()) {
      auto move = pop();
      switchyard.push_back(move);
      if (is_irreversible(move)) break;
      transpositions.add(_transposition_key());
  }
  \<close>
  on the state \<^verbatim>\<open>(board, switchyard, transpositions)\<close>.
\<close>

function count_positions ::
  "(Board \<Rightarrow> 'k) \<Rightarrow> (Board \<Rightarrow> Move \<Rightarrow> bool) \<Rightarrow> Board \<Rightarrow> Move list \<Rightarrow> 'k HashCounter
   \<Rightarrow> error + (Board \<times> Move list \<times> 'k HashCounter)" where
  "count_positions tkey is_irreversible board switchyard transpositions =
     (if move_stack board = [] then Inr (board, switchyard, transpositions)
      else
        (case pop board of
           Inl e \<Rightarrow> Inl e
         | Inr (move, board') \<Rightarrow>
             (let switchyard' = switchyard @ [move] in
              if is_irreversible board' move then Inr (board', switchyard', transpositions)
              else count_positions tkey is_irreversible board' switchyard'
                     (HashCounter_add (tkey board') transpositions))))"
  by pat_completeness auto
termination
  by (relation "measure (\<lambda>(tkey, irr, board, sw, tr). length (move_stack board))")
    (auto simp: pop_def restore_def Let_def split: if_splits)

declare count_positions.simps [simp del]

text \<open>
  \<^verbatim>\<open>
  while (!switchyard.empty()) { auto m = switchyard.back(); push(m); switchyard.pop_back(); }
  \<close>
\<close>

function replay :: "Move list \<Rightarrow> Board \<Rightarrow> Board" where
  "replay switchyard board =
     (if switchyard = [] then board
      else replay (butlast switchyard) (push (last switchyard) board))"
  by pat_completeness auto
termination
  by (relation "measure (\<lambda>(sw, board). length sw)") auto

declare replay.simps [simp del]

text \<open>
  The loop over the legal moves: push, take the key, test
  \<^verbatim>\<open>transpositions.count(key) >= 2\<close>, pop, and return at the first hit.
\<close>

fun probe_moves ::
  "(Board \<Rightarrow> 'k) \<Rightarrow> 'k HashCounter \<Rightarrow> Move list \<Rightarrow> Board \<Rightarrow> error + (bool \<times> Board)" where
  "probe_moves tkey transpositions [] board = Inr (False, board)"
| "probe_moves tkey transpositions (move # lmoves) board =
     (let b1 = push move board;
          key = tkey b1;
          ret = (HashCounter_count transpositions key \<ge> 2)
      in case pop b1 of
           Inl e \<Rightarrow> Inl e
         | Inr (m, b2) \<Rightarrow>
             if ret then Inr (ret, b2) else probe_moves tkey transpositions lmoves b2)"

definition can_claim_threefold_repetition ::
  "(Board \<Rightarrow> 'k) \<Rightarrow> (Board \<Rightarrow> Move \<Rightarrow> bool) \<Rightarrow> (Board \<Rightarrow> Move list) \<Rightarrow> Board
   \<Rightarrow> error + (bool \<times> Board)" where
  "can_claim_threefold_repetition tkey is_irreversible generate_legal_moves board =
     (let transposition_key = tkey board;
          transpositions = HashCounter_add transposition_key Map.empty
      in case count_positions tkey is_irreversible board [] transpositions of
           Inl e \<Rightarrow> Inl e
         | Inr (b1, switchyard, transpositions) \<Rightarrow>
             (let b2 = replay switchyard b1 in
              if HashCounter_count transpositions transposition_key \<ge> 3 then Inr (True, b2)
              else probe_moves tkey transpositions (generate_legal_moves b2) b2))"

section \<open>Test positions\<close>

text \<open>
  White to move with a pawn on d5 (square 35), after Black has answered with the
  double step e7-e5: a black pawn on e5 (square 36), the en-passant square e6
  (square 44), and the kings on e1 and e8.
\<close>

definition ep_position :: Board where
  "ep_position = \<lparr>
     occupied_co_W = push_bit 4 1 OR push_bit 35 1,
     occupied_co_B = push_bit 60 1 OR push_bit 36 1,
     pawns = push_bit 35 1 OR push_bit 36 1,
     knights = 0, bishops = 0, rooks = 0, queens = 0,
     kings = push_bit 4 1 OR push_bit 60 1,
     promoted = 0,
     occupied = push_bit 4 1 OR push_bit 35 1 OR push_bit 60 1 OR push_bit 36 1,
     castling_rights = 0, halfmove_clock = 0, fullmove_number = 2,
     ep_square = Some 44, turn = WHITE, chess960 = False,
     move_stack = [], u_stack = []\<rparr>"

text \<open>
  The standard game start (\<^verbatim>\<open>Board::reset\<close> on a board without history) and the game
  \<^verbatim>\<open>Nf3 Nf6 Ng1 Ng8 Nf3 Nf6 Ng1 Ng8\<close> played from it: g1 is square 6, f3 is 21, g8 is
  62, f6 is 45.
\<close>

definition empty_Board :: Board where
  "empty_Board = \<lparr>occupied_co_W = 0, occupied_co_B = 0, pawns = 0, knights = 0,
     bishops = 0, rooks = 0, queens = 0, kings = 0, promoted = 0, occupied = 0,
     castling_rights = 0, halfmove_clock = 0, fullmove_number = 1, ep_square = None,
     turn = WHITE, chess960 = False, move_stack = [], u_stack = []\<rparr>"

definition starting_Board :: Board where
  "starting_Board = reset empty_Board"

definition mv :: "Square \<Rightarrow> Square \<Rightarrow> Move" where
  "mv a b = \<lparr>from_square = a, to_square = b, promotion = None, drop = None\<rparr>"

definition knight_dance :: "Move list" where
  "knight_dance = [mv 6 21, mv 62 45, mv 21 6, mv 45 62, mv 6 21, mv 62 45, mv 21 6, mv 45 62]"

definition play :: "Move list \<Rightarrow> Board \<Rightarrow> Board" where
  "play moves board = fold push moves board"

section \<open>Sliding attacks and attack tables\<close>

text \<open>
  \<^verbatim>\<open>square_distance\<close> of \<^verbatim>\<open>BitboardOps.hpp\<close>, on the \<^verbatim>\<open>int\<close> values of the squares:
  the larger of the file distance and the rank distance.
\<close>

definition square_distance :: "int \<Rightarrow> int \<Rightarrow> int" where
  "square_distance a b =
     max \<bar>square_file a - square_file b\<bar> \<bar>square_rank a - square_rank b\<bar>"

text \<open>
  The inner loop of \<^verbatim>\<open>_sliding_attacks\<close> for one \<^verbatim>\<open>delta\<close>, on the state
  \<^verbatim>\<open>(sq, attacks)\<close>:
  \<^verbatim>\<open>
  while (true) {
      sq += delta;
      if (!(0 <= sq && sq < 64) || square_distance((Square)sq, (Square)(sq - delta)) > 2)
          break;
      attacks |= BB_SQUARES[sq];
      if (occupied & BB_SQUARES[sq])
          break;
  }
  \<close>
  The loop need not end for every \<^verbatim>\<open>delta\<close> (it runs forever for 0 on an empty
  board), so the result is an option and \<open>None\<close> stands for a run without end.
\<close>

partial_function (option) slide :: "int \<Rightarrow> Bitboard \<Rightarrow> int \<Rightarrow> Bitboard \<Rightarrow> Bitboard option" where
  "slide delta occ sq attacks =
     (let sq = sq + delta in
      if \<not> (0 \<le> sq \<and> sq < 64) \<or> square_distance sq (sq - delta) > 2 then Some attacks
      else
        (let attacks = attacks OR BB_SQUARES (nat sq) in
         if occ AND BB_SQUARES (nat sq) \<noteq> 0 then Some attacks
         else slide delta occ sq attacks))"

text \<open>The outer loop \<^verbatim>\<open>for (int delta : deltas)\<close>, which restarts at \<^verbatim>\<open>square\<close>.\<close>

fun u_sliding_attacks_loop ::
  "Square \<Rightarrow> Bitboard \<Rightarrow> int list \<Rightarrow> Bitboard \<Rightarrow> Bitboard option" where
  "u_sliding_attacks_loop square occ [] attacks = Some attacks"
| "u_sliding_attacks_loop square occ (delta # deltas) attacks =
     (case slide delta occ (int square) attacks of
        None \<Rightarrow> None
      | Some attacks' \<Rightarrow> u_sliding_attacks_loop square occ deltas attacks')"

definition u_sliding_attacks :: "Square \<Rightarrow> Bitboard \<Rightarrow> int list \<Rightarrow> Bitboard option" where
  "u_sliding_attacks square occ deltas = u_sliding_attacks_loop square occ deltas BB_EMPTY"

text \<open>
  \<^verbatim>\<open>
  constexpr auto _edges(Square square) -> Bitboard {
      return (((BB_RANK_1 | BB_RANK_8) & ~BB_RANKS[square_rank(square)]) |
              ((BB_FILE_A | BB_FILE_H) & ~BB_FILES[square_file(square)]));
  }
  \<close>
\<close>

definition u_edges :: "Square \<Rightarrow> Bitboard" where
  "u_edges square =
     ((BB_RANK_1 OR BB_RANK_8) AND NOT (BB_RANKS (nat (square_rank (int square)))))
     OR ((BB_FILE_A OR BB_FILE_H) AND NOT (BB_FILES (nat (square_file (int square)))))"

text \<open>
  \<^verbatim>\<open>_carry_rippler(mask)\<close> is the range of \<^verbatim>\<open>CRGenerator\<close>: it starts at the empty
  subset, yields the current subset, steps by \<^verbatim>\<open>subset = (subset - mask) & mask\<close> and
  is at its end once the step has produced 0. \<open>CRGenerator_run\<close> lists what the range
  yields from a given subset on; \<^verbatim>\<open>mask\<close> and \<^verbatim>\<open>subset\<close> are \<open>msk\<close> and \<open>sub\<close>.
\<close>

partial_function (option) CRGenerator_run :: "Bitboard \<Rightarrow> Bitboard \<Rightarrow> Bitboard list option" where
  "CRGenerator_run msk sub =
     (let sub' = (sub - msk) AND msk in
      if sub' = 0 then Some [sub]
      else Option.bind (CRGenerator_run msk sub') (\<lambda>rest. Some (sub # rest)))"

definition u_carry_rippler :: "Bitboard \<Rightarrow> Bitboard list option" where
  "u_carry_rippler msk = CRGenerator_run msk BB_EMPTY"

text \<open>
  \<^verbatim>\<open>_attack_table(deltas)\<close>:
  \<^verbatim>\<open>
  for (auto square : SQUARES) {
      std::unordered_map<Bitboard, Bitboard> attacks;
      auto mask = _sliding_attacks(square, 0, deltas) & ~_edges(square);
      for (auto subset : _carry_rippler(mask))
          attacks[subset] = _sliding_attacks(square, subset, deltas);
      attack_table.push_back(attacks);
      mask_table.push_back(mask);
  }
  return std::make_pair(mask_table, attack_table);
  \<close>
  \<open>fill_attacks\<close> is the inner loop over the subsets, \<open>u_attack_table_loop\<close> the outer
  loop over the squares.
\<close>

text \<open>\<^verbatim>\<open>SQUARES\<close> is the array of the 64 enumerators of \<^verbatim>\<open>Square\<close>, in their order.\<close>

definition SQUARES :: "Square list" where
  "SQUARES = [0..<64]"

fun fill_attacks ::
  "Square \<Rightarrow> int list \<Rightarrow> Bitboard list \<Rightarrow> (Bitboard \<rightharpoonup> Bitboard)
   \<Rightarrow> (Bitboard \<rightharpoonup> Bitboard) option" where
  "fill_attacks square deltas [] attacks = Some attacks"
| "fill_attacks square deltas (sub # subs) attacks =
     (case u_sliding_attacks square sub deltas of
        None \<Rightarrow> None
      | Some a \<Rightarrow> fill_attacks square deltas subs (attacks(sub \<mapsto> a)))"

fun u_attack_table_loop ::
  "int list \<Rightarrow> Square list \<Rightarrow> Bitboard list \<times> (Bitboard \<rightharpoonup> Bitboard) list
   \<Rightarrow> (Bitboard list \<times> (Bitboard \<rightharpoonup> Bitboard) list) option" where
  "u_attack_table_loop deltas [] tables = Some tables"
| "u_attack_table_loop deltas (square # squares) tables =
     (case u_sliding_attacks square 0 deltas of
        None \<Rightarrow> None
      | Some a0 \<Rightarrow>
          (let msk = a0 AND NOT (u_edges square) in
           case u_carry_rippler msk of
             None \<Rightarrow> None
           | Some subs \<Rightarrow>
               (case fill_attacks square deltas subs Map.empty of
                  None \<Rightarrow> None
                | Some attacks \<Rightarrow>
                    u_attack_table_loop deltas squares
                      (fst tables @ [msk], snd tables @ [attacks]))))"

definition u_attack_table ::
  "int list \<Rightarrow> (Bitboard list \<times> (Bitboard \<rightharpoonup> Bitboard) list) option" where
  "u_attack_table deltas = u_attack_table_loop deltas SQUARES ([], [])"

text \<open>The three direction families, \<^verbatim>\<open>_DIAG\<close>, \<^verbatim>\<open>_FILE\<close> and \<^verbatim>\<open>_RANK\<close>.\<close>

definition u_DIAG :: "int list" where "u_DIAG = [-9, -7, 7, 9]"
definition u_FILE :: "int list" where "u_FILE = [-8, 8]"
definition u_RANK :: "int list" where "u_RANK = [-1, 1]"

text \<open>
  The runtime lookup, as in \<^verbatim>\<open>attacks_mask\<close>:
  \<^verbatim>\<open>BB_DIAG_ATTACKS[square].at(BB_DIAG_MASKS[square] & occupied)\<close>, where
  \<^verbatim>\<open>(BB_DIAG_MASKS, BB_DIAG_ATTACKS)\<close> is the pair that \<^verbatim>\<open>_attack_table(_DIAG)\<close>
  returns. \<^verbatim>\<open>at\<close> of \<^verbatim>\<open>std::unordered_map\<close> throws \<^verbatim>\<open>std::out_of_range\<close> for a key
  that is not in the map.
\<close>

definition map_at :: "('k \<rightharpoonup> 'v) \<Rightarrow> 'k \<Rightarrow> error + 'v" where
  "map_at m key = (case m key of Some v \<Rightarrow> Inr v | None \<Rightarrow> Inl OutOfRange)"

definition table_lookup ::
  "Bitboard list \<times> (Bitboard \<rightharpoonup> Bitboard) list \<Rightarrow> Square \<Rightarrow> Bitboard \<Rightarrow> error + Bitboard" where
  "table_lookup tables square occ =
     map_at (snd tables ! square) (fst tables ! square AND occ)"

section \<open>Auxiliary definitions for the proofs\<close>

text \<open>The same conditions read at one bit position.\<close>

definition bit_ok :: "'a BaseBoard_scheme \<Rightarrow> nat \<Rightarrow> bool" where
  "bit_ok b n \<longleftrightarrow>
     \<not> (bit (pawns b) n \<and> bit (knights b) n) \<and> \<not> (bit (pawns b) n \<and> bit (bishops b) n)
     \<and> \<not> (bit (pawns b) n \<and> bit (rooks b) n) \<and> \<not> (bit (pawns b) n \<and> bit (queens b) n)
     \<and> \<not> (bit (pawns b) n \<and> bit (kings b) n)
     \<and> \<not> (bit (knights b) n \<and> bit (bishops b) n) \<and> \<not> (bit (knights b) n \<and> bit (rooks b) n)
     \<and> \<not> (bit (knights b) n \<and> bit (queens b) n) \<and> \<not> (bit (knights b) n \<and> bit (kings b) n)
     \<and> \<not> (bit (bishops b) n \<and> bit (rooks b) n) \<and> \<not> (bit (bishops b) n \<and> bit (queens b) n)
     \<and> \<not> (bit (bishops b) n \<and> bit (kings b) n)
     \<and> \<not> (bit (rooks b) n \<and> bit (queens b) n) \<and> \<not> (bit (rooks b) n \<and> bit (kings b) n)
     \<and> \<not> (bit (queens b) n \<and> bit (kings b) n)
     \<and> ((bit (pawns b) n \<or> bit (knights b) n \<or> bit (bishops b) n \<or> bit (rooks b) n
          \<or> bit (queens b) n \<or> bit (kings b) n) = bit (occupied b) n)
     \<and> \<not> (bit (occupied_co_W b) n \<and> bit (occupied_co_B b) n)
     \<and> ((bit (occupied_co_W b) n \<or> bit (occupied_co_B b) n) = bit (occupied b) n)
     \<and> (bit (promoted b) n \<longrightarrow> bit (occupied b) n)"

text \<open>
  The position part of a board: everything but the clocks, the Chess960 flag and the
  stacks. \<open>dance_position\<close> is the starting position up to the knights, the colour
  bitboards and the side to move; \<open>t0\<close> to \<open>t3\<close> are the four positions of the game
  \<open>knight_dance\<close>.
\<close>

type_synonym Position =
  "Bitboard \<times> Bitboard \<times> Bitboard \<times> Bitboard \<times> Bitboard \<times> Bitboard \<times> Bitboard \<times> Bitboard
   \<times> Bitboard \<times> Bitboard \<times> Color \<times> Bitboard \<times> Square option"

definition position :: "Board \<Rightarrow> Position" where
  "position b = (pawns b, knights b, bishops b, rooks b, queens b, kings b,
     occupied_co_W b, occupied_co_B b, promoted b, occupied b, turn b, castling_rights b,
     ep_square b)"

definition dance_position :: "Bitboard \<Rightarrow> Bitboard \<Rightarrow> Bitboard \<Rightarrow> Color \<Rightarrow> Position" where
  "dance_position kn w bl c =
     (0x00ff00000000ff00, kn, 0x2400000000000024, 0x8100000000000081, 0x0800000000000008,
      0x1000000000000010, w, bl, 0, w OR bl, c, 0x8100000000000081, None)"

definition t0 :: Position where
  "t0 = dance_position 0x4200000000000042 0xffff 0xffff000000000000 WHITE"
definition t1 :: Position where
  "t1 = dance_position 0x4200000000200002 0x20ffbf 0xffff000000000000 BLACK"
definition t2 :: Position where
  "t2 = dance_position 0x0200200000200002 0x20ffbf 0xbfff200000000000 WHITE"
definition t3 :: Position where
  "t3 = dance_position 0x0200200000000042 0xffff 0xbfff200000000000 BLACK"

text \<open>The side to move and the knights of a transposition key.\<close>

definition key_turn_knights :: "TranspositionKey \<Rightarrow> Color \<times> Bitboard" where
  "key_turn_knights k = (case k of (p, kn, b, r, q, ki, w, bl, c, rest) \<Rightarrow> (c, kn))"

text \<open>
  The eight ray directions as a step of the file and a step of the rank: \<open>dfile\<close> and
  \<open>drank\<close> are the two coordinates of a \<^verbatim>\<open>delta\<close>, \<open>dirs\<close> is the set of the
  directions of \<^verbatim>\<open>_DIAG\<close>, \<^verbatim>\<open>_FILE\<close> and \<^verbatim>\<open>_RANK\<close>. \<open>can_step d sq\<close> says that the
  neighbour of \<open>sq\<close> in direction \<open>d\<close> is on the board; \<open>step_fact\<close> is the statement
  that the exit test of the loop of \<^verbatim>\<open>_sliding_attacks\<close> is the negation of \<open>can_step\<close> and
  that a step moves the coordinates as \<open>dfile\<close> and \<open>drank\<close> say.
\<close>

definition dfile :: "int \<Rightarrow> int" where
  "dfile d = (if d = -9 \<or> d = -1 \<or> d = 7 then -1 else if d = -7 \<or> d = 1 \<or> d = 9 then 1 else 0)"

definition drank :: "int \<Rightarrow> int" where
  "drank d = (if d = -9 \<or> d = -8 \<or> d = -7 then -1 else if d = 7 \<or> d = 8 \<or> d = 9 then 1 else 0)"

definition dirs :: "int set" where
  "dirs = {-9, -8, -7, -1, 1, 7, 8, 9}"

definition on_board :: "int \<Rightarrow> bool" where
  "on_board sq \<longleftrightarrow> 0 \<le> sq \<and> sq < 64"

definition can_step :: "int \<Rightarrow> int \<Rightarrow> bool" where
  "can_step d sq \<longleftrightarrow>
     0 \<le> sq mod 8 + dfile d \<and> sq mod 8 + dfile d \<le> 7
     \<and> 0 \<le> sq div 8 + drank d \<and> sq div 8 + drank d \<le> 7"

definition step_fact :: "int \<Rightarrow> int \<Rightarrow> bool" where
  "step_fact d sq \<longleftrightarrow>
     ((\<not> (0 \<le> sq + d \<and> sq + d < 64) \<or> square_distance (sq + d) (sq + d - d) > 2)
        = (\<not> can_step d sq))
     \<and> (\<not> can_step d sq \<or>
          (on_board (sq + d) \<and> (sq + d) mod 8 = sq mod 8 + dfile d
           \<and> (sq + d) div 8 = sq div 8 + drank d))"

text \<open>
  \<open>room d sq\<close> bounds the number of steps that are left from \<open>sq\<close> in direction \<open>d\<close>;
  it is the measure for the loop. \<open>room_fact\<close> is the statement that a step uses it up.
\<close>

definition room :: "int \<Rightarrow> int \<Rightarrow> nat" where
  "room d sq =
     nat (min (if dfile d = 1 then 7 - sq mod 8 else if dfile d = -1 then sq mod 8 else 8)
              (if drank d = 1 then 7 - sq div 8 else if drank d = -1 then sq div 8 else 8))"

definition room_fact :: "int \<Rightarrow> int \<Rightarrow> bool" where
  "room_fact d sq \<longleftrightarrow> \<not> can_step d sq \<or> room d (sq + d) < room d sq"

text \<open>
  \<open>reach d s x\<close>: the square \<open>x\<close> lies on the ray from \<open>s\<close> in direction \<open>d\<close>, at one
  step or more. \<open>ahead k a b\<close> orders two coordinates along a step \<open>k\<close>.
\<close>

inductive reach :: "int \<Rightarrow> int \<Rightarrow> int \<Rightarrow> bool" for d :: int where
  step: "on_board sq \<Longrightarrow> can_step d sq \<Longrightarrow> reach d sq (sq + d)"
| more: "on_board sq \<Longrightarrow> can_step d sq \<Longrightarrow> reach d (sq + d) x \<Longrightarrow> reach d sq x"

definition ahead :: "int \<Rightarrow> int \<Rightarrow> int \<Rightarrow> bool" where
  "ahead k a b \<longleftrightarrow> (k = 1 \<and> a < b) \<or> (k = -1 \<and> b < a) \<or> (k = 0 \<and> a = b)"

text \<open>
  An entry of the attack table of a square is right when, for every occupancy, the map
  holds the sliding attacks at the key that the lookup computes.
\<close>

definition entry_ok :: "int list \<Rightarrow> Square \<Rightarrow> Bitboard \<Rightarrow> (Bitboard \<rightharpoonup> Bitboard) \<Rightarrow> bool" where
  "entry_ok ds s msk m = (\<forall>occ. m (msk AND occ) = u_sliding_attacks s occ ds)"

section \<open>Properties of the bit scans and of SquareSet\<close>

lemmas BB_defs = BB_SQUARES_def BB_RANKS_def BB_FILES_def BB_RANK_1_def BB_RANK_2_def
  BB_RANK_7_def BB_RANK_8_def BB_EMPTY_def BB_ALL_def BB_CORNERS_def BB_BACKRANKS_def

lemmas starting_defs = starting_BaseBoard_def reset_board_def empty_BaseBoard_def

lemma find_eq_rev_upt:
  assumes "i < n"
  shows "find (\<lambda>k. k = i) (rev [0..<n]) = Some i"
  using assms by (induction n) (auto simp: less_Suc_eq)

lemma msb_BB_SQUARES:
  assumes "sq < 64"
  shows "msb (BB_SQUARES sq) = 63 - sq"
proof -
  have "bit (BB_SQUARES sq) = (\<lambda>k. k = sq)"
    using assms by (auto simp: BB_SQUARES_def bit_push_bit_iff bit_1_iff bit_exp_iff fun_eq_iff)
  then show ?thesis
    using assms find_eq_rev_upt [of sq 64] by (simp add: msb_def clzll_def)
qed

text \<open>
  C9. \<^verbatim>\<open>SquareSet::pop\<close> called on the empty set does not raise: it returns a square
  and leaves the set empty.
\<close>

theorem SquareSet_pop_empty_returns:
  "\<exists>square. SquareSet_pop 0 = Inr (square, 0)"
  by (simp add: SquareSet_pop_def)

lemma SquareSet_pop_never_raises:
  "SquareSet_pop m \<noteq> Inl e"
  by (simp add: SquareSet_pop_def Let_def)

section \<open>Properties of BaseBoard queries\<close>

text \<open>
  C3. In the starting position the white king stands on square 4 (bit 4 is the only
  bit of the king mask), and \<^verbatim>\<open>king(WHITE)\<close> returns square 59.
\<close>

theorem king_starting_position:
  "occupied_co starting_BaseBoard WHITE AND kings starting_BaseBoard AND
     NOT (promoted starting_BaseBoard) = BB_SQUARES 4
   \<and> king starting_BaseBoard WHITE = Some 59"
proof -
  have m: "occupied_co starting_BaseBoard WHITE AND kings starting_BaseBoard AND
     NOT (promoted starting_BaseBoard) = BB_SQUARES 4"
    by (simp add: starting_defs BB_defs)
  have "BB_SQUARES 4 \<noteq> 0" by (simp add: BB_defs)
  with m show ?thesis
    by (simp add: king_def msb_BB_SQUARES)
qed

lemma king_single_king:
  assumes "sq < 64"
    and "occupied_co b c AND kings b AND NOT (promoted b) = BB_SQUARES sq"
  shows "king b c = Some (63 - sq)"
proof -
  have "BB_SQUARES sq \<noteq> 0"
    using assms(1) by (simp add: BB_SQUARES_def)
  then show ?thesis
    using assms by (simp add: king_def msb_BB_SQUARES)
qed

lemma king_absent:
  assumes "occupied_co b c AND kings b AND NOT (promoted b) = 0"
  shows "king b c = None"
  using assms by (simp add: king_def)

text \<open>
  C10. \<^verbatim>\<open>piece_at\<close> and \<^verbatim>\<open>color_at\<close> do not report the same colour. In the starting
  position square 0 holds a white rook: \<^verbatim>\<open>color_at\<close> reports \<^verbatim>\<open>WHITE\<close> and \<^verbatim>\<open>piece_at\<close>
  reports a rook whose colour is \<^verbatim>\<open>BLACK\<close>. Square 60 holds the black king:
  \<^verbatim>\<open>color_at\<close> reports \<^verbatim>\<open>BLACK\<close> and \<^verbatim>\<open>piece_at\<close> reports a king whose colour is
  \<^verbatim>\<open>WHITE\<close>. The two casts are \<^verbatim>\<open>(Color)1\<close> and \<^verbatim>\<open>(Color)0\<close>.
\<close>

theorem piece_at_color_starting_position:
  "occupied_co starting_BaseBoard WHITE AND BB_SQUARES 0 = 1
   \<and> color_at starting_BaseBoard 0 = Some WHITE
   \<and> piece_at starting_BaseBoard 0 = Some \<lparr>piece_type = ROOK, color = BLACK\<rparr>
   \<and> occupied_co starting_BaseBoard WHITE AND BB_SQUARES 60 = 0
   \<and> color_at starting_BaseBoard 60 = Some BLACK
   \<and> piece_at starting_BaseBoard 60 = Some \<lparr>piece_type = KING, color = WHITE\<rparr>"
  by (simp add: starting_defs BB_defs color_at_def piece_at_def piece_type_at_def
      Color_of_Bitboard_def)

text \<open>
  A black piece is never in \<^verbatim>\<open>occupied_co[WHITE]\<close>, so the cast is \<^verbatim>\<open>(Color)0\<close> and
  \<^verbatim>\<open>piece_at\<close> reports it as \<^verbatim>\<open>WHITE\<close> on every square.
\<close>

lemma piece_at_black_square:
  assumes "occupied b AND BB_SQUARES sq \<noteq> 0"
    and "occupied_co b WHITE AND BB_SQUARES sq = 0"
    and "occupied_co b BLACK AND BB_SQUARES sq \<noteq> 0"
  shows "color_at b sq = Some BLACK"
    and "\<exists>pt. piece_at b sq = Some \<lparr>piece_type = pt, color = WHITE\<rparr>"
  using assms
  by (simp_all add: color_at_def piece_at_def piece_type_at_def Color_of_Bitboard_def Let_def)

section \<open>Properties of the UCI parser\<close>

text \<open>
  C8. \<^verbatim>\<open>from_uci("0000")\<close> is the null move, and \<^verbatim>\<open>from_uci("e2e4")\<close>, a string of
  two valid lower-case square names, raises.
\<close>

theorem from_uci_lowercase_raises:
  "from_uci ''0000'' = Inr null \<and> from_uci ''e2e4'' = Inl InvalidArgument"
  by code_simp

lemma from_uci_table_order:
  "from_uci ''A2A4'' = Inr \<lparr>from_square = 1, to_square = 3, promotion = None, drop = None\<rparr>"
  by code_simp

lemma from_uci_unknown_square_accepted:
  "from_uci ''A1Z9'' = Inr \<lparr>from_square = 0, to_square = 64, promotion = None, drop = None\<rparr>"
  by code_simp

section \<open>Properties of the Chess960 encoding\<close>

text \<open>
  C5. \<^verbatim>\<open>chess960_pos\<close> returns absent on every board, so it returns no index on the
  board that \<^verbatim>\<open>set_chess960_pos(n)\<close> builds.
\<close>

theorem chess960_pos_always_absent:
  "chess960_pos b = None"
  by (simp add: chess960_pos_def BB_RANK_2_def BB_RANKS_def)

lemma set_chess960_pos_518_knights:
  "(case set_chess960_pos 518 empty_BaseBoard of
      Inr b \<Rightarrow> knights b = push_bit 7 1 OR push_bit 63 1
    | Inl e \<Rightarrow> False)"
  by code_simp

section \<open>Properties of the en-passant generator\<close>

text \<open>
  C2. In \<open>ep_position\<close> the en-passant square 44 is set and empty, and the white pawn
  on square 35 stands on rank 5 beside it; the generator yields no move.
\<close>

theorem EPIterator_white_rank5_empty:
  "ep_square ep_position = Some 44
   \<and> occupied ep_position AND BB_SQUARES 44 = 0
   \<and> pawns ep_position AND occupied_co ep_position WHITE AND BB_RANKS 4 = BB_SQUARES 35
   \<and> EPIterator ep_position BB_ALL BB_ALL = []"
  by (simp add: ep_position_def BB_defs EPIterator_def EPIterator_capturers_def
      BB_PAWN_ATTACKS_def BB_PAWN_ATTACKS_1_def not_Color_def scan_reversed.simps)

section \<open>Set and remove preserve the invariants\<close>

lemma bit64_lt: "bit x n \<Longrightarrow> n < 64" for x :: Bitboard
  by (auto dest: bit_imp_le_length)

lemma word_eq_bitwise:
  "x = y \<longleftrightarrow> (\<forall>n. bit x n = bit y n)" for x y :: Bitboard
proof
  assume "x = y"
  then show "\<forall>n. bit x n = bit y n" by simp
next
  assume "\<forall>n. bit x n = bit y n"
  then show "x = y" by (auto intro: bit_eqI)
qed

lemma disjoint_bitwise:
  "(x AND y = 0) \<longleftrightarrow> (\<forall>n. \<not> (bit x n \<and> bit y n))" for x y :: Bitboard
  by (simp add: word_eq_bitwise bit_and_iff)

lemma subset_bitwise:
  "(x AND NOT y = 0) \<longleftrightarrow> (\<forall>n. bit x n \<longrightarrow> bit y n)" for x y :: Bitboard
  using bit64_lt [of x] by (auto simp: word_eq_bitwise bit_and_iff bit_not_iff)

lemma union2_bitwise:
  "(x OR y = z) \<longleftrightarrow> (\<forall>n. (bit x n \<or> bit y n) = bit z n)" for x y z :: Bitboard
  by (simp add: word_eq_bitwise bit_or_iff)

lemma union6_bitwise:
  "(a OR b OR c OR d OR e OR f = z) \<longleftrightarrow>
   (\<forall>n. (bit a n \<or> bit b n \<or> bit c n \<or> bit d n \<or> bit e n \<or> bit f n) = bit z n)"
  for a b c d e f z :: Bitboard
  by (simp add: word_eq_bitwise bit_or_iff)

lemma invariants_bitwise: "invariants b \<longleftrightarrow> (\<forall>n. bit_ok b n)"
  unfolding invariants_def bit_ok_def
  apply (simp only: pairwise_disjoint.simps list_all_Cons_iff list.pred_inject
      occupied_co.simps simp_thms conj_assoc)
  apply (simp only: subset_bitwise union6_bitwise)
  apply (simp only: disjoint_bitwise union2_bitwise all_conj_distrib conj_assoc)
  done


lemma bit_BB_SQUARES: "bit (BB_SQUARES sq) n \<longleftrightarrow> n = sq \<and> sq < 64"
  by (auto simp: BB_SQUARES_def bit_push_bit_iff bit_1_iff bit_exp_iff)

lemma and_BB_SQUARES_eq_0: "(x AND BB_SQUARES sq = 0) \<longleftrightarrow> \<not> bit x sq"
  using bit64_lt [of x sq] by (auto simp: word_eq_bitwise bit_and_iff bit_BB_SQUARES)

lemma bit_NOT_BB_SQUARES: "bit (NOT (BB_SQUARES sq)) n \<longleftrightarrow> n < 64 \<and> n \<noteq> sq"
  by (auto simp: bit_not_iff bit_BB_SQUARES)

lemma bit_conj_lt:
  "(bit x n \<and> n < 64) = bit x n" "(bit x n \<and> n < 64 \<and> Q) = (bit x n \<and> Q)"
  for x :: Bitboard
  using bit64_lt [of x n] by auto

lemmas bit_board_simps =
  bit_xor_iff bit_and_iff bit_or_iff bit_NOT_BB_SQUARES bit_BB_SQUARES bit_conj_lt
  and_BB_SQUARES_eq_0

lemma piece_type_at_None:
  "piece_type_at b sq = None \<longleftrightarrow> \<not> bit (occupied b) sq"
  by (simp add: piece_type_at_def Let_def and_BB_SQUARES_eq_0)

lemma piece_type_at_Some:
  assumes "piece_type_at b sq = Some t"
  shows "bit (occupied b) sq \<and>
     (t = PAWN \<and> bit (pawns b) sq
      \<or> t = KNIGHT \<and> \<not> bit (pawns b) sq \<and> bit (knights b) sq
      \<or> t = BISHOP \<and> \<not> bit (pawns b) sq \<and> \<not> bit (knights b) sq \<and> bit (bishops b) sq
      \<or> t = ROOK \<and> \<not> bit (pawns b) sq \<and> \<not> bit (knights b) sq \<and> \<not> bit (bishops b) sq
          \<and> bit (rooks b) sq
      \<or> t = QUEEN \<and> \<not> bit (pawns b) sq \<and> \<not> bit (knights b) sq \<and> \<not> bit (bishops b) sq
          \<and> \<not> bit (rooks b) sq \<and> bit (queens b) sq
      \<or> t = KING \<and> \<not> bit (pawns b) sq \<and> \<not> bit (knights b) sq \<and> \<not> bit (bishops b) sq
          \<and> \<not> bit (rooks b) sq \<and> \<not> bit (queens b) sq)"
  using assms
  by (simp add: piece_type_at_def Let_def and_BB_SQUARES_eq_0 split: if_splits)

lemma u_remove_piece_at_result:
  "u_remove_piece_at sq b =
     (case piece_type_at b sq of
        None \<Rightarrow> (None, b)
      | Some t \<Rightarrow>
          (Some t,
           b\<lparr>pawns := (if t = PAWN then pawns b XOR BB_SQUARES sq else pawns b),
             knights := (if t = KNIGHT then knights b XOR BB_SQUARES sq else knights b),
             bishops := (if t = BISHOP then bishops b XOR BB_SQUARES sq else bishops b),
             rooks := (if t = ROOK then rooks b XOR BB_SQUARES sq else rooks b),
             queens := (if t = QUEEN then queens b XOR BB_SQUARES sq else queens b),
             kings := (if t = KING then kings b XOR BB_SQUARES sq else kings b),
             occupied := occupied b XOR BB_SQUARES sq,
             occupied_co_W := occupied_co_W b AND NOT (BB_SQUARES sq),
             occupied_co_B := occupied_co_B b AND NOT (BB_SQUARES sq),
             promoted := promoted b AND NOT (BB_SQUARES sq)\<rparr>))"
proof (cases "piece_type_at b sq")
  case None
  then show ?thesis by (simp add: u_remove_piece_at_def Let_def)
next
  case (Some t)
  from piece_type_at_Some [OF Some] show ?thesis
    unfolding u_remove_piece_at_def Let_def Some
    by (elim conjE disjE; simp add: PieceType_defs)
qed

lemma bit_ok_remove:
  assumes n: "bit_ok b n" and s: "bit_ok b sq"
  shows "bit_ok (snd (u_remove_piece_at sq b)) n"
proof (cases "piece_type_at b sq")
  case None
  then show ?thesis using n by (simp add: u_remove_piece_at_result)
next
  case (Some t)
  note facts = piece_type_at_Some [OF Some]
  then have lt: "sq < 64" using bit64_lt by blast
  show ?thesis
  proof (cases "n = sq")
    case True
    with s facts lt show ?thesis
      unfolding u_remove_piece_at_result Some bit_ok_def
      by (elim conjE disjE; simp add: bit_board_simps PieceType_defs)
  next
    case False
    with n facts lt show ?thesis
      unfolding u_remove_piece_at_result Some bit_ok_def
      by (elim conjE disjE; simp add: bit_board_simps PieceType_defs)
  qed
qed

lemma bit_clear_remove:
  assumes s: "bit_ok b sq"
  shows "\<not> bit (occupied (snd (u_remove_piece_at sq b))) sq"
proof (cases "piece_type_at b sq")
  case None
  then have "\<not> bit (occupied b) sq" by (simp add: piece_type_at_None)
  with None show ?thesis by (simp add: u_remove_piece_at_result)
next
  case (Some t)
  note facts = piece_type_at_Some [OF Some]
  then have lt: "sq < 64" using bit64_lt by blast
  with facts show ?thesis
    unfolding u_remove_piece_at_result Some
    by (simp add: bit_board_simps)
qed

lemma u_set_piece_at_result:
  "u_set_piece_at sq pt c promo b =
     (let b0 = snd (u_remove_piece_at sq b) in
      if pt = PAWN \<or> pt = KNIGHT \<or> pt = BISHOP \<or> pt = ROOK \<or> pt = QUEEN \<or> pt = KING then
        b0\<lparr>pawns := (if pt = PAWN then pawns b0 OR BB_SQUARES sq else pawns b0),
           knights := (if pt = KNIGHT then knights b0 OR BB_SQUARES sq else knights b0),
           bishops := (if pt = BISHOP then bishops b0 OR BB_SQUARES sq else bishops b0),
           rooks := (if pt = ROOK then rooks b0 OR BB_SQUARES sq else rooks b0),
           queens := (if pt = QUEEN then queens b0 OR BB_SQUARES sq else queens b0),
           kings := (if pt = KING then kings b0 OR BB_SQUARES sq else kings b0),
           occupied := occupied b0 XOR BB_SQUARES sq,
           occupied_co_W := (if c = WHITE then occupied_co_W b0 XOR BB_SQUARES sq
                             else occupied_co_W b0),
           occupied_co_B := (if c = BLACK then occupied_co_B b0 XOR BB_SQUARES sq
                             else occupied_co_B b0),
           promoted := (if promo then promoted b0 XOR BB_SQUARES sq else promoted b0)\<rparr>
      else b0)"
  unfolding u_set_piece_at_def Let_def
  by (cases c) (simp_all add: PieceType_defs)


lemma bit_if_other:
  assumes "n \<noteq> sq"
  shows "bit (if P then x OR BB_SQUARES sq else x) n = bit x n"
    and "bit (if P then x XOR BB_SQUARES sq else x) n = bit x n"
    and "bit (x XOR BB_SQUARES sq) n = bit x n"
  using assms by (simp_all add: bit_or_iff bit_xor_iff bit_BB_SQUARES)

lemma bit_ok_set:
  assumes n: "bit_ok b n" and s: "bit_ok b sq" and lt: "sq < 64"
  shows "bit_ok (u_set_piece_at sq pt c promo b) n"
proof -
  define b0 where "b0 = snd (u_remove_piece_at sq b)"
  have n0: "bit_ok b0 n" and s0: "bit_ok b0 sq"
    unfolding b0_def using n s by (simp_all add: bit_ok_remove)
  have clr: "\<not> bit (occupied b0) sq"
    unfolding b0_def using s by (rule bit_clear_remove)
  show ?thesis
  proof (cases "pt = PAWN \<or> pt = KNIGHT \<or> pt = BISHOP \<or> pt = ROOK \<or> pt = QUEEN \<or> pt = KING")
    case False
    then show ?thesis
      using n0 by (simp add: u_set_piece_at_result b0_def [symmetric])
  next
    case valid: True
    show ?thesis
    proof (cases "n = sq")
      case True
      from s0 clr have z: "\<not> bit (pawns b0) sq" "\<not> bit (knights b0) sq" "\<not> bit (bishops b0) sq"
        "\<not> bit (rooks b0) sq" "\<not> bit (queens b0) sq" "\<not> bit (kings b0) sq"
        "\<not> bit (occupied_co_W b0) sq" "\<not> bit (occupied_co_B b0) sq" "\<not> bit (promoted b0) sq"
        unfolding bit_ok_def by simp_all
      define r where "r = u_set_piece_at sq pt c promo b"
      have f: "bit (pawns r) sq = (pt = PAWN)" "bit (knights r) sq = (pt = KNIGHT)"
        "bit (bishops r) sq = (pt = BISHOP)" "bit (rooks r) sq = (pt = ROOK)"
        "bit (queens r) sq = (pt = QUEEN)" "bit (kings r) sq = (pt = KING)"
        "bit (occupied r) sq" "bit (occupied_co_W r) sq = (c = WHITE)"
        "bit (occupied_co_B r) sq = (c = BLACK)" "bit (promoted r) sq = promo"
        using valid
        unfolding r_def u_set_piece_at_result b0_def [symmetric] Let_def
        by (simp_all add: bit_board_simps z clr lt)
      from valid f(7) show ?thesis
        unfolding r_def [symmetric] True bit_ok_def f
        by (cases c) (auto simp: PieceType_defs)
    next
      case False
      with n0 valid show ?thesis
        unfolding u_set_piece_at_result b0_def [symmetric] Let_def bit_ok_def
        by (simp add: bit_if_other)
    qed
  qed
qed



text \<open>
  C6. On a board that satisfies the invariants of the data model, for every square,
  optional piece (with its colour) and promoted flag, \<^verbatim>\<open>set_piece_at\<close> and
  \<^verbatim>\<open>remove_piece_at\<close> leave a board that satisfies them.
\<close>

theorem set_remove_piece_at_preserve_invariants:
  assumes "invariants b" and "square < 64"
  shows "invariants (set_piece_at square piece was_promoted b)
         \<and> invariants (snd (remove_piece_at square b))"
proof -
  have ok: "bit_ok b n" for n
    using assms(1) by (simp add: invariants_bitwise)
  have "bit_ok (set_piece_at square piece was_promoted b) n" for n
    using ok assms(2) by (cases piece) (simp_all add: set_piece_at_def bit_ok_remove bit_ok_set)
  moreover have "snd (remove_piece_at square b) = snd (u_remove_piece_at square b)"
    by (simp add: remove_piece_at_def Let_def split: prod.splits option.splits)
  then have "bit_ok (snd (remove_piece_at square b)) n" for n
    using ok by (simp add: bit_ok_remove)
  ultimately show ?thesis
    by (simp add: invariants_bitwise)
qed

theorem set_remove_piece_at_preserve_invariants_witness:
  "invariants starting_BaseBoard \<and> (12 :: nat) < 64
   \<and> invariants (set_piece_at 12 (Some \<lparr>piece_type = QUEEN, color = BLACK\<rparr>) True
        starting_BaseBoard)
   \<and> invariants (snd (remove_piece_at 12 starting_BaseBoard))
   \<and> piece_type_at (set_piece_at 12 (Some \<lparr>piece_type = QUEEN, color = BLACK\<rparr>) True
        starting_BaseBoard) 12 = Some QUEEN
   \<and> piece_type_at (snd (remove_piece_at 12 starting_BaseBoard)) 12 = None"
proof -
  have h: "invariants starting_BaseBoard"
    by (simp add: invariants_def starting_defs BB_defs)
  have p: "piece_type_at (set_piece_at 12 (Some \<lparr>piece_type = QUEEN, color = BLACK\<rparr>) True
        starting_BaseBoard) 12 = Some QUEEN"
    by (simp add: set_piece_at_def u_set_piece_at_def u_remove_piece_at_def piece_type_at_def
        starting_defs BB_defs PieceType_defs)
  have q: "piece_type_at (snd (remove_piece_at 12 starting_BaseBoard)) 12 = None"
    by (simp add: remove_piece_at_def u_remove_piece_at_def piece_type_at_def
        starting_defs BB_defs PieceType_defs Color_of_Bitboard_def)
  show ?thesis
    using set_remove_piece_at_preserve_invariants [OF h, of 12] h p q by simp
qed

section \<open>Make and unmake\<close>


lemma u_remove_piece_at_frame:
  fixes b :: Board
  shows "move_stack (snd (u_remove_piece_at sq b)) = move_stack b"
    and "u_stack (snd (u_remove_piece_at sq b)) = u_stack b"
    and "chess960 (snd (u_remove_piece_at sq b)) = chess960 b"
  by (simp_all add: u_remove_piece_at_result split: option.splits)

lemma u_set_piece_at_frame:
  fixes b :: Board
  shows "move_stack (u_set_piece_at sq pt c promo b) = move_stack b"
    and "u_stack (u_set_piece_at sq pt c promo b) = u_stack b"
    and "chess960 (u_set_piece_at sq pt c promo b) = chess960 b"
  by (simp_all add: u_set_piece_at_result Let_def u_remove_piece_at_frame)

lemma push_castling_frame:
  "move_stack (push_castling m us b) = move_stack b"
  "u_stack (push_castling m us b) = u_stack b"
  "chess960 (push_castling m us b) = chess960 b"
  by (simp_all add: push_castling_def Let_def u_set_piece_at_frame u_remove_piece_at_frame)

lemma push_frame:
  "move_stack (push m b) = move_stack b @ [m]"
  "u_stack (push m b) = u_stack b @ [BoardState_of b]"
  "chess960 (push m b) = chess960 b"
  by (simp_all add: push_def Let_def push_castling_frame u_set_piece_at_frame
      u_remove_piece_at_frame split: option.splits)

lemma u_remove_piece_at_turn:
  fixes b :: Board
  shows "turn (snd (u_remove_piece_at sq b)) = turn b"
  by (simp add: u_remove_piece_at_result split: option.splits)

lemma u_set_piece_at_turn:
  fixes b :: Board
  shows "turn (u_set_piece_at sq pt c promo b) = turn b"
  by (simp add: u_set_piece_at_result Let_def u_remove_piece_at_turn)

lemma push_turn: "turn (push m b) = not_Color (turn b)"
  by (simp add: push_def Let_def push_castling_def u_set_piece_at_turn u_remove_piece_at_turn
      split: option.splits)

lemma restore_BoardState_of:
  fixes b x :: Board
  assumes "chess960 x = chess960 b"
  shows "restore (BoardState_of b) (x\<lparr>move_stack := move_stack b, u_stack := u_stack b\<rparr>) = b"
  using assms by (cases b; cases x) (simp add: restore_def BoardState_of_def)

lemma pop_push: "pop (push m b) = Inr (m, b)"
  by (simp add: pop_def push_frame Let_def restore_BoardState_of)

text \<open>
  C1. For every board and every move, \<^verbatim>\<open>pop\<close> after \<^verbatim>\<open>push\<close> returns the move and the
  board as it was before the push: every bitboard, the turn, the castling rights, the
  en-passant square, both clocks, and the two stacks at their prior length.
\<close>

theorem push_pop_restores:
  "pop (push m b) = Inr (m, b)
   \<and> length (move_stack (push m b)) = Suc (length (move_stack b))"
  by (simp add: pop_push push_frame)

theorem push_pop_restores_witness:
  "pop (push (mv 12 28) starting_Board) = Inr (mv 12 28, starting_Board)
   \<and> move_stack (push (mv 12 28) starting_Board) = [mv 12 28]
   \<and> turn (push (mv 12 28) starting_Board) = BLACK
   \<and> turn starting_Board = WHITE"
proof -
  have "move_stack starting_Board = []" "turn starting_Board = WHITE"
    by (simp_all add: starting_Board_def reset_def Board_reset_board_def clear_stack_def
        reset_board_def)
  then show ?thesis
    using push_pop_restores [of "mv 12 28" starting_Board]
    by (simp add: push_frame push_turn not_Color_def)
qed

section \<open>Threefold repetition\<close>


lemma HashCounter_add_three:
  "HashCounter_count (HashCounter_add k (HashCounter_add k (HashCounter_add k Map.empty))) k = 2"
  by (simp add: HashCounter_add_def HashCounter_count_def)

lemma HashCounter_fold_add:
  assumes "\<And>k. m k = (if k \<in> set pre then Some (int (count_list pre k) - 1) else None)"
  shows "fold HashCounter_add ks m k =
     (if k \<in> set (pre @ ks) then Some (int (count_list (pre @ ks) k) - 1) else None)"
  using assms
proof (induction ks arbitrary: m pre)
  case Nil
  then show ?case by simp
next
  case (Cons x ks)
  have "HashCounter_add x m k =
      (if k \<in> set (pre @ [x]) then Some (int (count_list (pre @ [x]) k) - 1) else None)" for k
    using Cons.prems [of k] Cons.prems [of x]
    by (auto simp: HashCounter_add_def split: option.splits)
  from Cons.IH [of "HashCounter_add x m" "pre @ [x]", OF this] show ?case by simp
qed

lemma HashCounter_count_fold:
  "HashCounter_count (fold HashCounter_add ks Map.empty) k =
     (if k \<in> set ks then int (count_list ks k) - 1 else 0)"
  using HashCounter_fold_add [of Map.empty "[]" ks k]
  by (simp add: HashCounter_count_def)

lemma count_list_map_le: "count_list xs x \<le> count_list (map f xs) (f x)"
  by (induction xs) auto

lemma count_list_append_le: "count_list xs x \<le> count_list (xs @ ys) x"
  by simp

lemma replay_rev: "replay (rev xs) b = fold push xs b"
proof (induction xs arbitrary: b)
  case Nil
  then show ?case by (subst replay.simps) simp
next
  case (Cons x xs)
  then show ?case by (subst replay.simps) simp
qed

lemma play_move_stack:
  assumes "move_stack b0 = []"
  shows "move_stack (play ms b0) = ms"
proof -
  have "move_stack (fold push ms b) = move_stack b @ ms" for b
    by (induction ms arbitrary: b) (simp_all add: push_frame)
  with assms show ?thesis by (simp add: play_def)
qed

lemma play_snoc: "play (ms @ [m]) b0 = push m (play ms b0)"
  by (simp add: play_def)

lemma count_positions_play:
  assumes "move_stack b0 = []" and "i \<le> length ms"
  shows "\<exists>j ks zs. j \<le> i
     \<and> count_positions tkey irr (play (take i ms) b0) sw tr
         = Inr (play (take j ms) b0, sw @ rev (List.drop j (take i ms)), fold HashCounter_add ks tr)
     \<and> map (\<lambda>n. tkey (play (take n ms) b0)) (rev [0..<i]) = ks @ zs"
  using assms(2)
proof (induction i arbitrary: sw tr)
  case 0
  have "move_stack (play [] b0) = []" using assms(1) by (simp add: play_def)
  then have "count_positions tkey irr (play [] b0) sw tr = Inr (play [] b0, sw, tr)"
    by (subst count_positions.simps) simp
  then show ?case by (intro exI [of _ 0] exI [of _ "[]"]) simp
next
  case (Suc i)
  then have i: "i < length ms" by simp
  let ?m = "ms ! i"
  let ?b = "play (take i ms) b0"
  have tk: "take (Suc i) ms = take i ms @ [?m]"
    using i by (simp add: take_Suc_conv_app_nth)
  have b: "play (take (Suc i) ms) b0 = push ?m ?b"
    by (simp add: tk play_snoc)
  have ne: "move_stack (push ?m ?b) \<noteq> []" by (simp add: push_frame)
  show ?case
  proof (cases "irr ?b ?m")
    case True
    have "count_positions tkey irr (push ?m ?b) sw tr = Inr (?b, sw @ [?m], tr)"
      using ne True by (subst count_positions.simps) (simp add: pop_push)
    moreover have "List.drop i (take (Suc i) ms) = [?m]"
      using i by (simp add: tk)
    ultimately show ?thesis
      unfolding b
      by (intro exI [of _ i] exI [of _ "[]"]
          exI [of _ "map (\<lambda>n. tkey (play (take n ms) b0)) (rev [0..<Suc i])"]) simp
  next
    case False
    from Suc.IH [of "sw @ [?m]" "HashCounter_add (tkey ?b) tr"] i
    obtain j ks zs where j: "j \<le> i"
      and r: "count_positions tkey irr ?b (sw @ [?m]) (HashCounter_add (tkey ?b) tr)
         = Inr (play (take j ms) b0, (sw @ [?m]) @ rev (List.drop j (take i ms)),
                fold HashCounter_add ks (HashCounter_add (tkey ?b) tr))"
      and h: "map (\<lambda>n. tkey (play (take n ms) b0)) (rev [0..<i]) = ks @ zs"
      by auto
    have "count_positions tkey irr (push ?m ?b) sw tr
        = Inr (play (take j ms) b0, sw @ rev (List.drop j (take (Suc i) ms)),
               fold HashCounter_add (tkey ?b # ks) tr)"
      using ne False r j i by (subst count_positions.simps) (simp add: pop_push tk)
    moreover have "map (\<lambda>n. tkey (play (take n ms) b0)) (rev [0..<Suc i]) = (tkey ?b # ks) @ zs"
      using h by simp
    ultimately show ?thesis
      unfolding b using j by (intro exI [of _ j] exI [of _ "tkey ?b # ks"] exI [of _ zs]) simp
  qed
qed

lemma replay_play:
  assumes "j \<le> i"
  shows "replay (rev (List.drop j (take i ms))) (play (take j ms) b0) = play (take i ms) b0"
proof -
  have "take i ms = take j ms @ List.drop j (take i ms)"
    using assms by (metis append_take_drop_id min.absorb1 take_take)
  then have "play (take i ms) b0 = fold push (List.drop j (take i ms)) (play (take j ms) b0)"
    unfolding play_def by (metis fold_append comp_apply)
  then show ?thesis by (simp add: replay_rev)
qed

lemma probe_moves_no_hit:
  assumes "\<And>m. m \<in> set lm \<Longrightarrow> HashCounter_count tr (tkey (push m b)) < 2"
  shows "probe_moves tkey tr lm b = Inr (False, b)"
  using assms
proof (induction lm)
  case Nil
  then show ?case by simp
next
  case (Cons m lm)
  have "\<not> 2 \<le> HashCounter_count tr (tkey (push m b))"
    using Cons.prems [of m] by simp
  then show ?case
    using Cons by (simp add: pop_push Let_def)
qed


lemma position_start: "position starting_Board = t0"
  by (simp add: position_def t0_def dance_position_def starting_Board_def reset_def
      Board_reset_board_def clear_stack_def reset_board_def empty_Board_def BB_defs)

lemma push_quiet_knight:
  assumes kn: "piece_type_at b src = Some KNIGHT"
    and em: "piece_type_at b dst = None"
    and ep: "ep_square b = None"
    and pr: "promoted b = 0"
    and nk: "kings b AND BB_SQUARES src = 0"
  shows "position (push (mv src dst) b) =
     (pawns b, (knights b XOR BB_SQUARES src) OR BB_SQUARES dst, bishops b, rooks b,
      queens b, kings b,
      (if turn b = WHITE then (occupied_co_W b AND NOT (BB_SQUARES src)) XOR BB_SQUARES dst
       else occupied_co_W b AND NOT (BB_SQUARES src)),
      (if turn b = BLACK then (occupied_co_B b AND NOT (BB_SQUARES src)) XOR BB_SQUARES dst
       else occupied_co_B b AND NOT (BB_SQUARES src)),
      0, (occupied b XOR BB_SQUARES src) XOR BB_SQUARES dst, not_Color (turn b),
      castling_rights b AND NOT (BB_SQUARES src) AND NOT (BB_SQUARES dst), None)"
proof -
  note f = piece_type_at_Some [OF kn]
  have o: "bit (occupied b) src" "\<not> bit (occupied b) dst"
    using f em by (simp_all add: piece_type_at_None)
  then have ne: "src \<noteq> dst" by auto
  have lt: "src < 64" using o(1) bit64_lt by blast
  have k: "kings b AND BB_SQUARES src = 0" "pawns b AND BB_SQUARES src = 0"
    using f o nk by (auto simp: and_BB_SQUARES_eq_0 PieceType_defs)
  have cap: "\<not> is_en_passant b (mv src dst)" "\<not> is_castling b (mv src dst)"
    using ep k by (simp_all add: is_en_passant_def is_castling_def mv_def)
  define hm where "hm = (if is_capture b (mv src dst) then 0 else halfmove_clock b + 1)"
  define fm where
    "fm = (if turn b = BLACK then fullmove_number b + 1 else fullmove_number b)"
  define b6 where "b6 = b\<lparr>u_stack := u_stack b @ [BoardState_of b],
      move_stack := move_stack b @ [mv src dst], halfmove_clock := hm, fullmove_number := fm,
      turn := not_Color (turn b), ep_square := None\<rparr>"
  have "piece_type_at b6 src = piece_type_at b src"
    by (simp add: piece_type_at_def b6_def Let_def cong: if_cong)
  with kn have kn6: "piece_type_at b6 src = Some KNIGHT" by simp
  define c1 where "c1 = snd (u_remove_piece_at src b6)"
  have c1: "c1 = b6\<lparr>knights := knights b XOR BB_SQUARES src,
      occupied := occupied b XOR BB_SQUARES src,
      occupied_co_W := occupied_co_W b AND NOT (BB_SQUARES src),
      occupied_co_B := occupied_co_B b AND NOT (BB_SQUARES src),
      promoted := 0\<rparr>"
    unfolding c1_def u_remove_piece_at_result kn6
    by (simp add: PieceType_defs b6_def pr)
  have em1: "piece_type_at c1 dst = None"
    using o ne lt by (simp add: piece_type_at_None c1 bit_xor_iff bit_BB_SQUARES)
  have p: "push (mv src dst) b =
      (u_set_piece_at dst KNIGHT (turn b) False c1)
        \<lparr>castling_rights := castling_rights b AND NOT (BB_SQUARES src) AND NOT (BB_SQUARES dst)\<rparr>"
    using kn cap k pr
    unfolding push_def Let_def c1_def b6_def hm_def fm_def
    by (cases "turn b") (simp_all add: mv_def PieceType_defs push_castling_rights_def)
  show ?thesis
    unfolding p u_set_piece_at_result Let_def u_remove_piece_at_result em1
    by (cases "turn b") (simp_all add: position_def PieceType_defs c1 b6_def)
qed


lemma position_fields:
  assumes "position b = dance_position kn w bl c"
  shows "pawns b = 0x00ff00000000ff00" "knights b = kn" "bishops b = 0x2400000000000024"
    "rooks b = 0x8100000000000081" "queens b = 0x0800000000000008"
    "kings b = 0x1000000000000010" "occupied_co_W b = w" "occupied_co_B b = bl"
    "promoted b = 0" "occupied b = w OR bl" "turn b = c"
    "castling_rights b = 0x8100000000000081" "ep_square b = None"
  using assms by (simp_all add: position_def dance_position_def)

lemma dance_step:
  assumes p: "position b = dance_position kn w bl c"
    and kn: "bit kn src" "\<not> bit (0x00ff00000000ff00 :: Bitboard) src"
    and em: "\<not> bit (w OR bl) dst"
    and nk: "\<not> bit (0x1000000000000010 :: Bitboard) src"
    and cr: "\<not> bit (0x8100000000000081 :: Bitboard) src"
      "\<not> bit (0x8100000000000081 :: Bitboard) dst"
    and oc: "bit (w OR bl) src"
  shows "position (push (mv src dst) b) =
     dance_position ((kn XOR BB_SQUARES src) OR BB_SQUARES dst)
       (if c = WHITE then (w AND NOT (BB_SQUARES src)) XOR BB_SQUARES dst
        else w AND NOT (BB_SQUARES src))
       (if c = BLACK then (bl AND NOT (BB_SQUARES src)) XOR BB_SQUARES dst
        else bl AND NOT (BB_SQUARES src))
       (not_Color c)"
proof -
  note f = position_fields [OF p]
  have 1: "piece_type_at b src = Some KNIGHT"
    using kn oc by (simp add: piece_type_at_def f and_BB_SQUARES_eq_0 Let_def)
  have 2: "piece_type_at b dst = None"
    using em by (simp add: piece_type_at_None f)
  have 3: "kings b AND BB_SQUARES src = 0"
    using nk by (simp add: f and_BB_SQUARES_eq_0)
  have 4: "castling_rights b AND NOT (BB_SQUARES src) AND NOT (BB_SQUARES dst)
      = castling_rights b"
    using cr unfolding f word_eq_bitwise
    by (auto simp: bit_and_iff bit_NOT_BB_SQUARES dest: bit64_lt)
  have 5: "(occupied b XOR BB_SQUARES src) XOR BB_SQUARES dst =
      (if c = WHITE then (w AND NOT (BB_SQUARES src)) XOR BB_SQUARES dst
        else w AND NOT (BB_SQUARES src)) OR
      (if c = BLACK then (bl AND NOT (BB_SQUARES src)) XOR BB_SQUARES dst
        else bl AND NOT (BB_SQUARES src))"
    using oc em unfolding f word_eq_bitwise
    by (cases c) (auto simp: bit_xor_iff bit_or_iff bit_and_iff bit_NOT_BB_SQUARES
        bit_BB_SQUARES dest: bit64_lt)
  show ?thesis
    unfolding push_quiet_knight [OF 1 2 f(13) f(9) 3] 4 5
    by (simp add: f dance_position_def)
qed

lemma dance_positions:
  "position (play (take 0 knight_dance) starting_Board) = t0"
  "position (play (take 1 knight_dance) starting_Board) = t1"
  "position (play (take 2 knight_dance) starting_Board) = t2"
  "position (play (take 3 knight_dance) starting_Board) = t3"
  "position (play (take 4 knight_dance) starting_Board) = t0"
  "position (play (take 5 knight_dance) starting_Board) = t1"
  "position (play (take 6 knight_dance) starting_Board) = t2"
  "position (play (take 7 knight_dance) starting_Board) = t3"
  "position (play (take 8 knight_dance) starting_Board) = t0"
proof -
  have s1: "position (push (mv 6 21) b) = t1" if "position b = t0" for b
    using dance_step [OF that [unfolded t0_def], of 6 21]
    by (simp add: t1_def BB_defs not_Color_def)
  have s2: "position (push (mv 62 45) b) = t2" if "position b = t1" for b
    using dance_step [OF that [unfolded t1_def], of 62 45]
    by (simp add: t2_def BB_defs not_Color_def)
  have s3: "position (push (mv 21 6) b) = t3" if "position b = t2" for b
    using dance_step [OF that [unfolded t2_def], of 21 6]
    by (simp add: t3_def BB_defs not_Color_def)
  have s4: "position (push (mv 45 62) b) = t0" if "position b = t3" for b
    using dance_step [OF that [unfolded t3_def], of 45 62]
    by (simp add: t0_def BB_defs not_Color_def)
  note s = s1 s2 s3 s4 position_start
  show "position (play (take 0 knight_dance) starting_Board) = t0"
    "position (play (take 1 knight_dance) starting_Board) = t1"
    "position (play (take 2 knight_dance) starting_Board) = t2"
    "position (play (take 3 knight_dance) starting_Board) = t3"
    "position (play (take 4 knight_dance) starting_Board) = t0"
    "position (play (take 5 knight_dance) starting_Board) = t1"
    "position (play (take 6 knight_dance) starting_Board) = t2"
    "position (play (take 7 knight_dance) starting_Board) = t3"
    "position (play (take 8 knight_dance) starting_Board) = t0"
    by (simp_all add: knight_dance_def play_def s)
qed



lemma key_turn_knights_position:
  assumes "position b = dance_position kn w bl c"
  shows "key_turn_knights (u_transposition_key ccr hle b) = (c, kn)"
  using position_fields [OF assms]
  by (simp add: key_turn_knights_def u_transposition_key_def)

lemma key_turn_knights_turn:
  "fst (key_turn_knights (u_transposition_key ccr hle b)) = turn b"
  by (simp add: key_turn_knights_def u_transposition_key_def)

lemma knight_dance_repeats:
  "position (play (take 4 knight_dance) starting_Board) = position starting_Board"
  "position (play knight_dance starting_Board) = position starting_Board"
  using dance_positions by (simp_all add: position_start knight_dance_def)

text \<open>
  C4. After \<^verbatim>\<open>Nf3 Nf6 Ng1 Ng8 Nf3 Nf6 Ng1 Ng8\<close> from the starting position, where the
  position on the board stands for the third time, \<^verbatim>\<open>can_claim_threefold_repetition\<close>
  returns false, whatever the missing functions \<^verbatim>\<open>clean_castling_rights\<close>,
  \<^verbatim>\<open>has_legal_en_passant\<close>, \<^verbatim>\<open>is_irreversible\<close> and \<^verbatim>\<open>generate_legal_moves\<close> compute.
\<close>

theorem can_claim_threefold_repetition_knight_dance:
  "can_claim_threefold_repetition (u_transposition_key ccr hle) irr gen
     (play knight_dance starting_Board)
   = Inr (False, play knight_dance starting_Board)"
proof -
  let ?tkey = "u_transposition_key ccr hle"
  let ?B = "\<lambda>n. play (take n knight_dance) starting_Board"
  let ?g = "play knight_dance starting_Board"
  let ?K = "?tkey ?g"
  have g: "?g = ?B 8" by (simp add: knight_dance_def)
  have ms0: "move_stack starting_Board = []"
    by (simp add: starting_Board_def reset_def Board_reset_board_def clear_stack_def
        reset_board_def)
  have len: "8 \<le> length knight_dance" by (simp add: knight_dance_def)
  from count_positions_play [OF ms0 len, of ?tkey irr "[]" "HashCounter_add ?K Map.empty"]
  obtain j ks zs where j: "j \<le> 8"
    and cp: "count_positions ?tkey irr (?B 8) [] (HashCounter_add ?K Map.empty)
       = Inr (?B j, rev (List.drop j (take 8 knight_dance)),
              fold HashCounter_add ks (HashCounter_add ?K Map.empty))"
    and h: "map (\<lambda>n. ?tkey (?B n)) (rev [0..<8]) = ks @ zs"
    by auto
  define tr where "tr = fold HashCounter_add (?K # ks) Map.empty"
  have tr: "fold HashCounter_add ks (HashCounter_add ?K Map.empty) = tr"
    by (simp add: tr_def)
  have rp: "replay (rev (List.drop j (take 8 knight_dance))) (?B j) = ?g"
    using replay_play [OF j, of knight_dance starting_Board] g by simp
  define L :: "(Color \<times> Bitboard) list" where
    "L = [(WHITE, 0x4200000000000042), (BLACK, 0x0200200000000042),
      (WHITE, 0x0200200000200002), (BLACK, 0x4200000000200002),
      (WHITE, 0x4200000000000042), (BLACK, 0x0200200000000042),
      (WHITE, 0x0200200000200002), (BLACK, 0x4200000000200002),
      (WHITE, 0x4200000000000042)]"
  have "rev [0..<8] = [7, 6, 5, 4, 3, 2, 1, 0 :: nat]"
    by (simp add: upt_rec)
  then have "map key_turn_knights (?K # ks @ zs) =
      map (\<lambda>n. key_turn_knights (?tkey (?B n))) [8, 7, 6, 5, 4, 3, 2, 1, 0]"
    unfolding h [symmetric] g by simp
  also have "\<dots> = L"
    using dance_positions unfolding L_def
    by (simp add: key_turn_knights_position [OF _ [unfolded t0_def]]
        key_turn_knights_position t0_def t1_def t2_def t3_def)
  finally have proj: "map key_turn_knights (?K # ks @ zs) = L" .
  have bound: "count_list (?K # ks) k \<le> count_list L (key_turn_knights k)" for k
    using count_list_append_le [of "?K # ks" k zs]
      count_list_map_le [of "?K # ks @ zs" k key_turn_knights]
    unfolding proj by (simp only: append_Cons)
  have cw: "count_list L (WHITE, 0x4200000000000042) = 3"
    and cb: "count_list L (BLACK, x) \<le> 2" for x
    unfolding L_def by simp_all
  have count: "HashCounter_count tr k < int n"
    if "count_list (?K # ks) k \<le> n" and "0 < n" for k n
    using that unfolding tr_def HashCounter_count_fold by auto
  have "key_turn_knights ?K = (WHITE, 0x4200000000000042)"
    using proj unfolding L_def by simp
  then have "count_list (?K # ks) ?K \<le> 3"
    using bound [of ?K] cw by (simp only:)
  then have first: "\<not> 3 \<le> HashCounter_count tr ?K"
    using count [of ?K 3] by simp
  have turn_g: "turn ?g = WHITE"
    using position_fields(11) [OF dance_positions(9) [unfolded t0_def]] g by simp
  have "HashCounter_count tr (?tkey (push m ?g)) < 2" for m
  proof -
    have "fst (key_turn_knights (?tkey (push m ?g))) = BLACK"
      by (simp add: key_turn_knights_turn push_turn turn_g not_Color_def)
    then obtain x where "key_turn_knights (?tkey (push m ?g)) = (BLACK, x)"
      by (cases "key_turn_knights (?tkey (push m ?g))") simp
    then have "count_list (?K # ks) (?tkey (push m ?g)) \<le> count_list L (BLACK, x)"
      using bound [of "?tkey (push m ?g)"] by (simp only:)
    with cb [of x] have "count_list (?K # ks) (?tkey (push m ?g)) \<le> 2"
      by linarith
    then show ?thesis
      using count [of "?tkey (push m ?g)" 2] by simp
  qed
  then have probe: "probe_moves ?tkey tr (gen ?g) ?g = Inr (False, ?g)"
    by (rule probe_moves_no_hit)
  show ?thesis
    unfolding can_claim_threefold_repetition_def Let_def
    using cp [folded g] first probe by (simp add: tr rp)
qed

section \<open>Attack tables\<close>

subsection \<open>The sliding loop ends and marks its rays\<close>

lemma square_file_mod: "square_file x = x mod 8"
proof -
  have "x AND 7 = take_bit 3 x" by (simp add: take_bit_eq_mask mask_numeral)
  then show ?thesis by (simp add: square_file_def take_bit_eq_mod)
qed

lemma square_rank_div: "square_rank x = x div 8"
  by (simp add: square_rank_def drop_bit_eq_div)

lemma step_fact_all:
  "list_all (\<lambda>d. list_all (step_fact d) [0..63]) [-9, -8, -7, -1, 1, 7, 8, 9]"
  by code_simp

lemma step_fact:
  assumes "d \<in> dirs" and "on_board sq"
  shows "step_fact d sq"
proof -
  have "sq \<in> set [0..63]" using assms(2) by (simp add: on_board_def)
  moreover have "d \<in> set [-9, -8, -7, -1, 1, 7, 8, 9]"
    using assms(1) by (simp add: dirs_def)
  ultimately show ?thesis
    using step_fact_all unfolding list_all_iff by blast
qed

lemma step_test:
  assumes "d \<in> dirs" and "on_board sq"
  shows "(\<not> (0 \<le> sq + d \<and> sq + d < 64) \<or> square_distance (sq + d) (sq + d - d) > 2)
         \<longleftrightarrow> \<not> can_step d sq"
  using step_fact [OF assms] unfolding step_fact_def by blast

lemma step_coords:
  assumes "d \<in> dirs" and "on_board sq" and "can_step d sq"
  shows "on_board (sq + d)" and "(sq + d) mod 8 = sq mod 8 + dfile d"
    and "(sq + d) div 8 = sq div 8 + drank d"
  using step_fact [OF assms(1,2)] assms(3) unfolding step_fact_def by blast+

lemma room_fact_all:
  "list_all (\<lambda>d. list_all (room_fact d) [0..63]) [-9, -8, -7, -1, 1, 7, 8, 9]"
  by code_simp

lemma room_step:
  assumes "d \<in> dirs" and "on_board sq" and "can_step d sq"
  shows "room d (sq + d) < room d sq"
proof -
  have "sq \<in> set [0..63]" using assms(2) by (simp add: on_board_def)
  moreover have "d \<in> set [-9, -8, -7, -1, 1, 7, 8, 9]"
    using assms(1) by (simp add: dirs_def)
  ultimately have "room_fact d sq"
    using room_fact_all unfolding list_all_iff by blast
  with assms(3) show ?thesis by (simp add: room_fact_def)
qed

lemma slide_unfold:
  assumes "d \<in> dirs" and "on_board sq"
  shows "slide d occ sq acc =
     (if \<not> can_step d sq then Some acc
      else if bit occ (nat (sq + d)) then Some (acc OR BB_SQUARES (nat (sq + d)))
      else slide d occ (sq + d) (acc OR BB_SQUARES (nat (sq + d))))"
  using step_test [OF assms]
  by (subst slide.simps) (simp add: Let_def and_BB_SQUARES_eq_0)

lemma slide_total:
  assumes "d \<in> dirs" and "on_board sq"
  shows "\<exists>a. slide d occ sq acc = Some a \<and> (\<forall>n. bit acc n \<longrightarrow> bit a n)"
  using assms(2)
proof (induction "room d sq" arbitrary: sq acc rule: less_induct)
  case less
  show ?case
  proof (cases "can_step d sq")
    case False
    then show ?thesis by (simp add: slide_unfold [OF assms(1) less.prems])
  next
    case True
    note ob = step_coords(1) [OF assms(1) less.prems True]
    show ?thesis
    proof (cases "bit occ (nat (sq + d))")
      case True
      with \<open>can_step d sq\<close> show ?thesis
        by (simp add: slide_unfold [OF assms(1) less.prems] bit_or_iff)
    next
      case False
      from less.hyps [OF room_step [OF assms(1) less.prems True] ob,
          of "acc OR BB_SQUARES (nat (sq + d))"]
      obtain a where "slide d occ (sq + d) (acc OR BB_SQUARES (nat (sq + d))) = Some a"
        and "\<forall>n. bit (acc OR BB_SQUARES (nat (sq + d))) n \<longrightarrow> bit a n"
        by blast
      with False True show ?thesis
        by (simp add: slide_unfold [OF assms(1) less.prems] bit_or_iff)
    qed
  qed
qed

lemma reach_snoc:
  assumes "d \<in> dirs" and "reach d s sq" and "can_step d sq"
  shows "reach d s (sq + d)"
  using assms(2,3)
proof (induction rule: reach.induct)
  case (step sq)
  have "on_board (sq + d)" using step_coords(1) [OF assms(1) step(1,2)] .
  then have "reach d (sq + d) (sq + d + d)" using step.prems by (rule reach.step)
  with step(1,2) show ?case by (rule reach.more)
next
  case (more sq x)
  then show ?case by (auto intro: reach.more)
qed

lemma reach_on_board:
  assumes "d \<in> dirs" and "reach d s x"
  shows "on_board x"
  using assms(2) by (induction rule: reach.induct) (auto intro: step_coords(1) [OF assms(1)])

lemma slide_empty_reach:
  assumes "d \<in> dirs" and "reach d sq x" and "slide d 0 sq acc = Some a"
  shows "bit a (nat x)"
  using assms(2,3)
proof (induction arbitrary: acc rule: reach.induct)
  case (step sq)
  let ?acc = "acc OR BB_SQUARES (nat (sq + d))"
  have ob: "on_board (sq + d)" using step_coords(1) [OF assms(1) step(1,2)] .
  from step have "slide d 0 (sq + d) ?acc = Some a"
    by (simp add: slide_unfold [OF assms(1) step(1)])
  with slide_total [OF assms(1) ob, of 0 ?acc] have "\<forall>n. bit ?acc n \<longrightarrow> bit a n"
    by auto
  moreover have "nat (sq + d) < 64" using ob unfolding on_board_def by linarith
  ultimately show ?case by (simp add: bit_or_iff bit_BB_SQUARES)
next
  case (more sq x)
  from more.prems more.hyps(1,2) have
    "slide d 0 (sq + d) (acc OR BB_SQUARES (nat (sq + d))) = Some a"
    by (simp add: slide_unfold [OF assms(1) more.hyps(1)])
  then show ?case by (rule more.IH)
qed

subsection \<open>A ray ends on the edge\<close>

lemma BB_RANKS_bits:
  "list_all (\<lambda>r. list_all (\<lambda>x. bit (BB_RANKS r) x = (x div 8 = r)) [0..<64]) [0..<8]"
  by code_simp

lemma BB_FILES_bits:
  "list_all (\<lambda>f. list_all (\<lambda>x. bit (BB_FILES f) x = (x mod 8 = f)) [0..<64]) [0..<8]"
  by code_simp

lemma bit_BB_RANKS:
  assumes "r < 8" and "x < 64"
  shows "bit (BB_RANKS r) x \<longleftrightarrow> x div 8 = r"
  using BB_RANKS_bits assms unfolding list_all_iff by simp

lemma bit_BB_FILES:
  assumes "f < 8" and "x < 64"
  shows "bit (BB_FILES f) x \<longleftrightarrow> x mod 8 = f"
  using BB_FILES_bits assms unfolding list_all_iff by simp

lemma bit_u_edges:
  assumes "s < 64" and "x < 64"
  shows "bit (u_edges s) x \<longleftrightarrow>
     ((x div 8 = 0 \<or> x div 8 = 7) \<and> x div 8 \<noteq> s div 8)
     \<or> ((x mod 8 = 0 \<or> x mod 8 = 7) \<and> x mod 8 \<noteq> s mod 8)"
proof -
  have r: "nat (square_rank (int s)) = s div 8" and f: "nat (square_file (int s)) = s mod 8"
    by (simp_all add: square_rank_div square_file_mod nat_div_distrib nat_mod_distrib)
  have "s div 8 < 8" "s mod 8 < 8" using assms(1) by simp_all
  then show ?thesis
    using assms(2)
    by (simp add: u_edges_def r f bit_or_iff bit_and_iff bit_not_iff bit_BB_RANKS bit_BB_FILES
        BB_RANK_1_def BB_RANK_8_def BB_FILE_A_def BB_FILE_H_def)
qed

lemma dirs_cases:
  assumes "d \<in> dirs"
  shows "(dfile d = -1 \<or> dfile d = 0 \<or> dfile d = 1) \<and> (drank d = -1 \<or> drank d = 0 \<or> drank d = 1)"
  unfolding dfile_def drank_def by simp

lemma ahead_step:
  assumes "k = -1 \<or> k = 0 \<or> k = 1"
  shows "ahead k a (a + k)"
  using assms by (auto simp: ahead_def)

lemma ahead_more:
  assumes "ahead k (a + k) b"
  shows "ahead k a b"
  using assms by (auto simp: ahead_def)

lemma reach_sign:
  assumes "d \<in> dirs" and "reach d s x"
  shows "ahead (dfile d) (s mod 8) (x mod 8) \<and> ahead (drank d) (s div 8) (x div 8)"
  using assms(2)
proof (induction rule: reach.induct)
  case (step sq)
  from step_coords(2,3) [OF assms(1) step] dirs_cases [OF assms(1)] show ?case
    by (simp add: ahead_step)
next
  case (more sq x)
  from step_coords(2,3) [OF assms(1) more.hyps(1,2)] more.IH show ?case
    by (simp add: ahead_more)
qed

lemma ahead_end:
  assumes "ahead k a b" and "b = 0 \<or> b = 7" and "b \<noteq> a" and "0 \<le> a" and "a \<le> 7"
  shows "\<not> (0 \<le> b + k \<and> b + k \<le> 7)"
  using assms by (auto simp: ahead_def)

lemma edge_ends_ray:
  assumes d: "d \<in> dirs" and s: "on_board s" and r: "reach d s x"
    and e: "bit (u_edges (nat s)) (nat x)"
  shows "\<not> can_step d x"
proof -
  have x: "on_board x" using reach_on_board [OF d r] .
  have sx: "nat s < 64" "nat x < 64" using s x unfolding on_board_def by linarith+
  have c: "int (nat x div 8) = x div 8" "int (nat x mod 8) = x mod 8"
    "int (nat s div 8) = s div 8" "int (nat s mod 8) = s mod 8"
    using s x unfolding on_board_def by (simp_all add: zdiv_int zmod_int)
  have b: "0 \<le> s div 8" "s div 8 \<le> 7" "0 \<le> s mod 8" "s mod 8 \<le> 7"
    using s unfolding on_board_def by auto
  from e have "((nat x div 8 = 0 \<or> nat x div 8 = 7) \<and> nat x div 8 \<noteq> nat s div 8)
     \<or> ((nat x mod 8 = 0 \<or> nat x mod 8 = 7) \<and> nat x mod 8 \<noteq> nat s mod 8)"
    unfolding bit_u_edges [OF sx] .
  then consider (rk) "(x div 8 = 0 \<or> x div 8 = 7) \<and> x div 8 \<noteq> s div 8"
    | (fl) "(x mod 8 = 0 \<or> x mod 8 = 7) \<and> x mod 8 \<noteq> s mod 8"
    unfolding c [symmetric] by auto
  then show ?thesis
  proof cases
    case rk
    with reach_sign [OF d r] b have "\<not> (0 \<le> x div 8 + drank d \<and> x div 8 + drank d \<le> 7)"
      by (intro ahead_end [where a = "s div 8"]) simp_all
    then show ?thesis unfolding can_step_def by blast
  next
    case fl
    with reach_sign [OF d r] b have "\<not> (0 \<le> x mod 8 + dfile d \<and> x mod 8 + dfile d \<le> 7)"
      by (intro ahead_end [where a = "s mod 8"]) simp_all
    then show ?thesis unfolding can_step_def by blast
  qed
qed

subsection \<open>Masking the occupancy keeps the attacks\<close>

lemma slide_masked:
  assumes d: "d \<in> dirs" and s: "on_board s"
    and a0: "\<And>x. reach d s x \<Longrightarrow> bit a0 (nat x)"
    and cur: "sq = s \<or> reach d s sq"
  shows "slide d (occ AND (a0 AND NOT (u_edges (nat s)))) sq acc = slide d occ sq acc"
  using cur
proof (induction "room d sq" arbitrary: sq acc rule: less_induct)
  case less
  let ?m = "a0 AND NOT (u_edges (nat s))"
  have ob: "on_board sq"
    using less.prems s reach_on_board [OF d] by blast
  show ?case
  proof (cases "can_step d sq")
    case False
    then show ?thesis by (simp add: slide_unfold [OF d ob])
  next
    case True
    let ?n = "sq + d"
    let ?acc = "acc OR BB_SQUARES (nat ?n)"
    have rn: "reach d s ?n"
      using less.prems True ob d by (auto intro: reach.step reach_snoc)
    have obn: "on_board ?n" using reach_on_board [OF d rn] .
    have lt: "nat ?n < 64" using obn unfolding on_board_def by linarith
    have bm: "bit (occ AND ?m) (nat ?n) \<longleftrightarrow> bit occ (nat ?n) \<and> \<not> bit (u_edges (nat s)) (nat ?n)"
      using a0 [OF rn] lt by (simp add: bit_and_iff bit_not_iff)
    show ?thesis
    proof (cases "bit occ (nat ?n)")
      case False
      with bm have "\<not> bit (occ AND ?m) (nat ?n)" by simp
      with False True show ?thesis
        using less.hyps [OF room_step [OF d ob True], of ?acc] rn
        by (simp add: slide_unfold [OF d ob])
    next
      case occ: True
      show ?thesis
      proof (cases "bit (u_edges (nat s)) (nat ?n)")
        case False
        with occ bm True show ?thesis by (simp add: slide_unfold [OF d ob])
      next
        case True
        then have "\<not> can_step d ?n" using edge_ends_ray [OF d s rn] by simp
        then have "slide d (occ AND ?m) ?n ?acc = Some ?acc"
          by (simp add: slide_unfold [OF d obn])
        with True occ bm \<open>can_step d sq\<close> show ?thesis
          by (simp add: slide_unfold [OF d ob])
      qed
    qed
  qed
qed

lemma u_sliding_attacks_loop_total:
  assumes "set ds \<subseteq> dirs" and "s < 64"
  shows "\<exists>a. u_sliding_attacks_loop s occ ds acc = Some a \<and> (\<forall>n. bit acc n \<longrightarrow> bit a n)"
  using assms(1)
proof (induction ds arbitrary: acc)
  case Nil
  then show ?case by simp
next
  case (Cons d ds)
  have ob: "on_board (int s)" using assms(2) by (simp add: on_board_def)
  from Cons.prems have d: "d \<in> dirs" and ds: "set ds \<subseteq> dirs" by simp_all
  from slide_total [OF d ob, of occ acc] obtain a1
    where a1: "slide d occ (int s) acc = Some a1" "\<forall>n. bit acc n \<longrightarrow> bit a1 n" by blast
  from Cons.IH [OF ds, of a1] obtain a
    where "u_sliding_attacks_loop s occ ds a1 = Some a" "\<forall>n. bit a1 n \<longrightarrow> bit a n" by blast
  with a1 show ?case by simp
qed

lemma u_sliding_attacks_loop_reach:
  assumes "set ds \<subseteq> dirs" and "s < 64"
    and "u_sliding_attacks_loop s 0 ds acc = Some a"
    and "d \<in> set ds" and "reach d (int s) x"
  shows "bit a (nat x)"
  using assms(1,3,4)
proof (induction ds arbitrary: acc)
  case Nil
  then show ?case by simp
next
  case (Cons e ds)
  have ob: "on_board (int s)" using assms(2) by (simp add: on_board_def)
  from Cons.prems have e: "e \<in> dirs" and ds: "set ds \<subseteq> dirs" by simp_all
  from slide_total [OF e ob, of 0 acc] obtain a1
    where a1: "slide e 0 (int s) acc = Some a1" by blast
  with Cons.prems(2) have rest: "u_sliding_attacks_loop s 0 ds a1 = Some a" by simp
  show ?case
  proof (cases "d = e")
    case True
    have "bit a1 (nat x)"
      using slide_empty_reach [OF e assms(5) [unfolded True] a1(1)] .
    moreover have "\<forall>n. bit a1 n \<longrightarrow> bit a n"
      using u_sliding_attacks_loop_total [OF ds assms(2), of 0 a1] rest by auto
    ultimately show ?thesis by simp
  next
    case False
    with Cons.prems(3) have "d \<in> set ds" by simp
    from Cons.IH [OF ds rest this] show ?thesis .
  qed
qed

lemma u_sliding_attacks_loop_masked:
  assumes "set ds \<subseteq> dirs" and "s < 64"
    and a0: "\<And>d x. d \<in> set ds \<Longrightarrow> reach d (int s) x \<Longrightarrow> bit a0 (nat x)"
  shows "u_sliding_attacks_loop s (occ AND (a0 AND NOT (u_edges s))) ds acc
       = u_sliding_attacks_loop s occ ds acc"
  using assms(1) a0
proof (induction ds arbitrary: acc)
  case Nil
  then show ?case by simp
next
  case (Cons d ds)
  have ob: "on_board (int s)" using assms(2) by (simp add: on_board_def)
  from Cons.prems have d: "d \<in> dirs" and ds: "set ds \<subseteq> dirs" by simp_all
  have a0d: "bit a0 (nat x)" if "reach d (int s) x" for x
    using Cons.prems(2) [of d x] that by simp
  have a0ds: "bit a0 (nat x)" if "e \<in> set ds" and "reach e (int s) x" for e x
    using Cons.prems(2) [of e x] that by simp
  have "slide d (occ AND (a0 AND NOT (u_edges (nat (int s))))) (int s) acc
      = slide d occ (int s) acc"
    by (rule slide_masked [OF d ob a0d]) simp_all
  then have 1: "slide d (occ AND (a0 AND NOT (u_edges s))) (int s) acc = slide d occ (int s) acc"
    by simp
  have 2: "u_sliding_attacks_loop s (occ AND (a0 AND NOT (u_edges s))) ds acc'
       = u_sliding_attacks_loop s occ ds acc'" for acc'
    by (rule Cons.IH [OF ds a0ds])
  show ?case by (simp add: 1 2 split: option.splits)
qed

lemma u_sliding_attacks_total:
  assumes "set ds \<subseteq> dirs" and "s < 64"
  shows "\<exists>a. u_sliding_attacks s occ ds = Some a"
  using u_sliding_attacks_loop_total [OF assms] unfolding u_sliding_attacks_def by blast

lemma u_sliding_attacks_masked:
  assumes "set ds \<subseteq> dirs" and "s < 64" and "u_sliding_attacks s 0 ds = Some a0"
  shows "u_sliding_attacks s ((a0 AND NOT (u_edges s)) AND occ) ds = u_sliding_attacks s occ ds"
proof -
  have "bit a0 (nat x)" if "d \<in> set ds" and "reach d (int s) x" for d x
    using u_sliding_attacks_loop_reach [OF assms(1,2) assms(3) [unfolded u_sliding_attacks_def] that] .
  from u_sliding_attacks_loop_masked [OF assms(1,2) this, where occ = occ and acc = BB_EMPTY]
  show ?thesis
    unfolding u_sliding_attacks_def by (simp add: and.commute)
qed

subsection \<open>The Carry-Rippler enumerates every subset of the mask\<close>

text \<open>
  The step \<^verbatim>\<open>(subset - mask) & mask\<close> on the integers, bit by bit: from a subset of the
  mask it leads to 0 or to a larger subset, and every subset but 0 is the step of
  \<^verbatim>\<open>(subset - 1) & mask\<close>.
\<close>

lemma and_double: "(2 * x) AND (2 * y) = 2 * (x AND y)" for x y :: int
  by (subst and_rec) simp

lemma and_double_odd1: "(1 + 2 * x) AND (2 * y) = 2 * (x AND y)" for x y :: int
  by (subst and_rec) simp

lemma and_double_odd2: "(2 * x) AND (1 + 2 * y) = 2 * (x AND y)" for x y :: int
  by (subst and_rec) simp

lemma and_double_odd: "(1 + 2 * x) AND (1 + 2 * y) = 1 + 2 * (x AND y)" for x y :: int
  by (subst and_rec) simp

lemma sub_mask_absorb:
  fixes b m :: int
  assumes "b AND m = b"
  shows "(b - m - 1) AND m = b"
proof -
  have "b AND NOT m = 0"
    by (subst assms [symmetric]) (simp add: and.assoc)
  then have "b + NOT m = b OR NOT m" by (rule disjunctive_add_eq_or)
  moreover have "b - m - 1 = b + NOT m" by (simp add: not_int_def)
  ultimately have "(b - m - 1) AND m = (b OR NOT m) AND m" by simp
  also have "\<dots> = b AND m" by (simp add: bit.conj_disj_distrib2)
  finally show ?thesis using assms by simp
qed

lemma subset_even:
  fixes s k :: int
  assumes "s AND (2 * k) = s"
  obtains t where "s = 2 * t" and "t AND k = t"
proof -
  have "even s" using assms by (metis even_and_iff dvd_triv_left)
  then obtain t where t: "s = 2 * t" by (elim evenE)
  with assms have "t AND k = t" by (simp add: and_double)
  with t show ?thesis by (rule that)
qed

lemma subset_odd:
  fixes s k :: int
  assumes "s AND (1 + 2 * k) = s"
  obtains t where "s = 2 * t" and "t AND k = t"
    | t where "s = 1 + 2 * t" and "t AND k = t"
proof (cases "even s")
  case True
  then obtain t where t: "s = 2 * t" by (elim evenE)
  with assms have "t AND k = t" by (simp add: and_double_odd2)
  with t show ?thesis by (rule that(1))
next
  case False
  then obtain t where t: "s = 2 * t + 1" by (elim oddE)
  with assms have "t AND k = t" by (simp add: and_double_odd add.commute)
  with t show ?thesis by (intro that(2)) simp_all
qed

lemma carry_rippler_next_int:
  fixes s m :: int
  assumes "s AND m = s"
  shows "(s - m) AND m = 0 \<or> s < (s - m) AND m"
  using assms
proof (induction m arbitrary: s rule: int_bit_induct)
  case zero
  then show ?case by simp
next
  case minus
  then show ?case by simp
next
  case (even k)
  from even.prems obtain t where t: "s = 2 * t" "t AND k = t"
    by (rule subset_even [of s k, unfolded mult.commute [of 2 k]])
  have e: "s - k * 2 = 2 * (t - k)" "k * 2 = 2 * k" by (simp_all add: t)
  have "(s - k * 2) AND (k * 2) = 2 * ((t - k) AND k)"
    by (subst e(1), subst e(2), rule and_double)
  with even.IH [OF t(2)] t(1) show ?case by auto
next
  case (odd k)
  from odd.prems show ?case
  proof (rule subset_odd [of s k, unfolded mult.commute [of 2 k]])
    fix t assume t: "s = 2 * t" "t AND k = t"
    have e: "s - (1 + k * 2) = 1 + 2 * (t - k - 1)" "k * 2 = 2 * k" by (simp_all add: t)
    have "(s - (1 + k * 2)) AND (1 + k * 2) = 1 + 2 * ((t - k - 1) AND k)"
      by (subst e(1), subst e(2), rule and_double_odd)
    with sub_mask_absorb [OF t(2)] t(1) show ?thesis by simp
  next
    fix t assume t: "s = 1 + 2 * t" "t AND k = t"
    have e: "s - (1 + k * 2) = 2 * (t - k)" "k * 2 = 2 * k" by (simp_all add: t)
    have "(s - (1 + k * 2)) AND (1 + k * 2) = 2 * ((t - k) AND k)"
      by (subst e(1), subst e(2), rule and_double_odd2)
    with odd.IH [OF t(2)] t(1) show ?thesis by auto
  qed
qed

lemma carry_rippler_pred_int:
  fixes b m :: int
  assumes "b AND m = b" and "b \<noteq> 0"
  shows "(((b - 1) AND m) - m) AND m = b"
  using assms
proof (induction m arbitrary: b rule: int_bit_induct)
  case zero
  then show ?case by simp
next
  case minus
  then show ?case by simp
next
  case (even k)
  from even.prems(1) obtain t where t: "b = 2 * t" "t AND k = t"
    by (rule subset_even [of b k, unfolded mult.commute [of 2 k]])
  with even.prems(2) have t0: "t \<noteq> 0" by simp
  have e: "b - 1 = 1 + 2 * (t - 1)" "k * 2 = 2 * k" by (simp_all add: t)
  have p: "(b - 1) AND (k * 2) = 2 * ((t - 1) AND k)"
    by (subst e(1), subst e(2), rule and_double_odd1)
  have q: "2 * ((t - 1) AND k) - k * 2 = 2 * (((t - 1) AND k) - k)" by simp
  have "(((b - 1) AND (k * 2)) - k * 2) AND (k * 2) = 2 * ((((t - 1) AND k) - k) AND k)"
    by (subst p, subst q, subst e(2), rule and_double)
  with even.IH [OF t(2) t0] t(1) show ?case by simp
next
  case (odd k)
  from odd.prems(1) show ?case
  proof (rule subset_odd [of b k, unfolded mult.commute [of 2 k]])
    fix t assume t: "b = 2 * t" "t AND k = t"
    with odd.prems(2) have t0: "t \<noteq> 0" by simp
    have e: "b - 1 = 1 + 2 * (t - 1)" "k * 2 = 2 * k" by (simp_all add: t)
    have p: "(b - 1) AND (1 + k * 2) = 1 + 2 * ((t - 1) AND k)"
      by (subst e(1), subst e(2), rule and_double_odd)
    have q: "1 + 2 * ((t - 1) AND k) - (1 + k * 2) = 2 * (((t - 1) AND k) - k)" by simp
    have "(((b - 1) AND (1 + k * 2)) - (1 + k * 2)) AND (1 + k * 2)
        = 2 * ((((t - 1) AND k) - k) AND k)"
      by (subst p, subst q, subst e(2), rule and_double_odd2)
    with odd.IH [OF t(2) t0] t(1) show ?thesis by simp
  next
    fix t assume t: "b = 1 + 2 * t" "t AND k = t"
    have e0: "b - 1 = 2 * t" "k * 2 = 2 * k" by (simp_all add: t)
    have p: "(b - 1) AND (1 + k * 2) = 2 * t"
      by (subst e0(1), subst e0(2), subst and_double_odd2, simp add: t(2))
    have e: "2 * t - (1 + k * 2) = 1 + 2 * (t - k - 1)" "k * 2 = 2 * k" by simp_all
    have "(((b - 1) AND (1 + k * 2)) - (1 + k * 2)) AND (1 + k * 2)
        = 1 + 2 * ((t - k - 1) AND k)"
      by (subst p, subst e(1), subst e(2), rule and_double_odd)
    with sub_mask_absorb [OF t(2)] t(1) show ?thesis by simp
  qed
qed

text \<open>
  The same two facts for machine words.
\<close>

lemma uint_sub_and:
  fixes S M :: "'a::len word"
  shows "uint ((S - M) AND M) = (uint S - uint M) AND uint M"
proof -
  have "uint ((S - M) AND M) = take_bit LENGTH('a) (uint S - uint M) AND uint M"
    by (simp add: uint_and uint_word_ariths take_bit_eq_mod)
  also have "\<dots> = (uint S - uint M) AND uint M"
    by (rule bit_eqI) (auto simp add: bit_and_iff bit_take_bit_iff bit_uint_iff)
  finally show ?thesis .
qed

lemma uint_pred:
  fixes B :: "'a::len word"
  assumes "B \<noteq> 0"
  shows "uint (B - 1) = uint B - 1"
proof -
  have "uint B \<noteq> 0" using assms by (simp add: uint_0_iff)
  moreover have "0 \<le> uint B" "uint B < 2 ^ LENGTH('a)" by (simp_all add: uint_lt2p)
  ultimately have "0 \<le> uint B - 1" "uint B - 1 < 2 ^ LENGTH('a)" by linarith+
  then have "(uint B - 1) mod 2 ^ LENGTH('a) = uint B - 1"
    by (rule mod_pos_pos_trivial)
  then show ?thesis by (simp add: uint_word_ariths)
qed

lemma carry_rippler_next:
  fixes S M :: "'a::len word"
  assumes "S AND M = S"
  shows "(S - M) AND M = 0 \<or> S < (S - M) AND M"
proof -
  have "uint S AND uint M = uint S"
    using assms by (simp flip: uint_and)
  from carry_rippler_next_int [OF this]
  have "uint ((S - M) AND M) = 0 \<or> uint S < uint ((S - M) AND M)"
    by (simp only: uint_sub_and)
  then show ?thesis by (simp only: uint_0_iff word_less_alt)
qed

lemma carry_rippler_pred:
  fixes B M :: "'a::len word"
  assumes "B AND M = B" and "B \<noteq> 0"
  shows "(((B - 1) AND M) - M) AND M = B" and "(B - 1) AND M < B"
proof -
  have 1: "uint B AND uint M = uint B"
    using assms(1) by (simp flip: uint_and)
  have 2: "uint B \<noteq> 0" using assms(2) by (simp add: uint_0_iff)
  have p: "uint ((B - 1) AND M) = (uint B - 1) AND uint M"
    by (simp add: uint_and uint_pred [OF assms(2)])
  have "uint ((((B - 1) AND M) - M) AND M) = uint B"
    by (simp only: uint_sub_and p carry_rippler_pred_int [OF 1 2])
  then show "(((B - 1) AND M) - M) AND M = B" by (simp only: word_uint_eq_iff)
  have "0 \<le> uint B - 1" using 2 uint_ge_0 [of B] by linarith
  then have "(uint B - 1) AND uint M \<le> uint B - 1" by (rule AND_upper1)
  then show "(B - 1) AND M < B" by (simp add: word_less_alt p)
qed

lemma CRGenerator_run_closed:
  assumes "S AND msk = S"
  shows "\<exists>xs. CRGenerator_run msk S = Some xs \<and> S \<in> set xs
    \<and> (\<forall>x\<in>set xs. (x - msk) AND msk \<noteq> 0 \<longrightarrow> (x - msk) AND msk \<in> set xs)"
  using assms
proof (induction "2 ^ 64 - unat S" arbitrary: S rule: less_induct)
  case less
  let ?n = "(S - msk) AND msk"
  show ?case
  proof (cases "?n = 0")
    case True
    then have "CRGenerator_run msk S = Some [S]"
      by (subst CRGenerator_run.simps) simp
    with True show ?thesis by simp
  next
    case False
    with carry_rippler_next [OF less.prems] have "S < ?n" by simp
    then have lt: "unat S < unat ?n" by (simp only: word_less_nat_alt)
    have "unat ?n < 2 ^ LENGTH(64)" by (rule unsigned_less)
    then have "unat ?n < 2 ^ 64" by simp
    with lt have "unat S < 2 ^ 64" by (rule less_trans)
    with lt have m: "2 ^ 64 - unat ?n < 2 ^ 64 - unat S" by (rule diff_less_mono2)
    have sub: "?n AND msk = ?n" by (simp add: and.assoc)
    from less.hyps [OF m sub] obtain rest where r: "CRGenerator_run msk ?n = Some rest"
      "?n \<in> set rest"
      "\<forall>x\<in>set rest. (x - msk) AND msk \<noteq> 0 \<longrightarrow> (x - msk) AND msk \<in> set rest"
      by blast
    have "CRGenerator_run msk S = Some (S # rest)"
      by (subst CRGenerator_run.simps) (simp add: False r(1))
    with r(2,3) show ?thesis by simp
  qed
qed

lemma u_carry_rippler_complete:
  "\<exists>xs. u_carry_rippler msk = Some xs \<and> (\<forall>B. B AND msk = B \<longrightarrow> B \<in> set xs)"
proof -
  from CRGenerator_run_closed [of 0 msk] obtain xs where xs: "CRGenerator_run msk 0 = Some xs"
    "0 \<in> set xs"
    "\<forall>x\<in>set xs. (x - msk) AND msk \<noteq> 0 \<longrightarrow> (x - msk) AND msk \<in> set xs"
    by auto
  have "B \<in> set xs" if "B AND msk = B" for B
    using that
  proof (induction "unat B" arbitrary: B rule: less_induct)
    case less
    show ?case
    proof (cases "B = 0")
      case True
      with xs(2) show ?thesis by simp
    next
      case False
      let ?p = "(B - 1) AND msk"
      from carry_rippler_pred [OF less.prems False]
      have st: "(?p - msk) AND msk = B" and lt: "?p < B" .
      have sub: "?p AND msk = ?p" by (simp add: and.assoc)
      from lt have "unat ?p < unat B" by (simp only: word_less_nat_alt)
      from less.hyps [OF this sub] have "?p \<in> set xs" .
      with xs(3) st False show ?thesis by auto
    qed
  qed
  with xs(1) show ?thesis by (simp add: u_carry_rippler_def BB_EMPTY_def)
qed

lemma fill_attacks_result:
  assumes "set ds \<subseteq> dirs" and "s < 64"
  shows "\<exists>m. fill_attacks s ds xs m0 = Some m
    \<and> (\<forall>k. m k = (if k \<in> set xs then u_sliding_attacks s k ds else m0 k))"
proof (induction xs arbitrary: m0)
  case Nil
  show ?case by simp
next
  case (Cons sub subs)
  from u_sliding_attacks_total [OF assms] obtain a where a: "u_sliding_attacks s sub ds = Some a"
    by blast
  from Cons.IH [of "m0(sub \<mapsto> a)"] obtain m where m: "fill_attacks s ds subs (m0(sub \<mapsto> a)) = Some m"
    "\<And>k. m k = (if k \<in> set subs then u_sliding_attacks s k ds else (m0(sub \<mapsto> a)) k)"
    by blast
  have "fill_attacks s ds (sub # subs) m0 = Some m" by (simp add: a m(1))
  moreover have "m k = (if k \<in> set (sub # subs) then u_sliding_attacks s k ds else m0 k)" for k
    by (simp add: m(2) a)
  ultimately show ?case by blast
qed

subsection \<open>The tables\<close>

lemma square_entry:
  assumes ds: "set ds \<subseteq> dirs" and s: "s < 64"
  obtains a0 subs m where "u_sliding_attacks s 0 ds = Some a0"
    and "u_carry_rippler (a0 AND NOT (u_edges s)) = Some subs"
    and "fill_attacks s ds subs Map.empty = Some m"
    and "entry_ok ds s (a0 AND NOT (u_edges s)) m"
proof -
  from u_sliding_attacks_total [OF ds s] obtain a0 where a0: "u_sliding_attacks s 0 ds = Some a0"
    by blast
  let ?msk = "a0 AND NOT (u_edges s)"
  from u_carry_rippler_complete [of ?msk] obtain subs where subs: "u_carry_rippler ?msk = Some subs"
    "\<And>B. B AND ?msk = B \<Longrightarrow> B \<in> set subs"
    by blast
  from fill_attacks_result [OF ds s, of subs Map.empty] obtain m
    where m: "fill_attacks s ds subs Map.empty = Some m"
      "\<And>k. m k = (if k \<in> set subs then u_sliding_attacks s k ds else None)"
    by auto
  have "m (?msk AND occ) = u_sliding_attacks s occ ds" for occ
  proof -
    have "(?msk AND occ) AND ?msk = ?msk AND occ"
      by (simp add: and.commute and.left_commute)
    then have "?msk AND occ \<in> set subs" by (rule subs(2))
    then have "m (?msk AND occ) = u_sliding_attacks s (?msk AND occ) ds" by (simp add: m(2))
    also have "\<dots> = u_sliding_attacks s occ ds" by (rule u_sliding_attacks_masked [OF ds s a0])
    finally show ?thesis .
  qed
  then have "entry_ok ds s ?msk m" by (simp add: entry_ok_def)
  with a0 subs(1) m(1) show ?thesis by (rule that)
qed

lemma u_attack_table_loop_result:
  assumes ds: "set ds \<subseteq> dirs" and sqs: "\<forall>s\<in>set sqs. s < 64"
  shows "\<exists>mt at. u_attack_table_loop ds sqs tables = Some (fst tables @ mt, snd tables @ at)
    \<and> length mt = length sqs \<and> length at = length sqs
    \<and> (\<forall>i<length sqs. entry_ok ds (sqs ! i) (mt ! i) (at ! i))"
  using sqs
proof (induction sqs arbitrary: tables)
  case Nil
  show ?case by simp
next
  case (Cons sq sqs)
  then have sq: "sq < 64" and rest: "\<forall>s\<in>set sqs. s < 64" by simp_all
  from square_entry [OF ds sq] obtain a0 subs m where e: "u_sliding_attacks sq 0 ds = Some a0"
    "u_carry_rippler (a0 AND NOT (u_edges sq)) = Some subs"
    "fill_attacks sq ds subs Map.empty = Some m"
    "entry_ok ds sq (a0 AND NOT (u_edges sq)) m"
    by blast
  let ?msk = "a0 AND NOT (u_edges sq)"
  let ?t = "(fst tables @ [?msk], snd tables @ [m])"
  from Cons.IH [OF rest, of ?t] obtain mt at
    where r: "u_attack_table_loop ds sqs ?t = Some (fst ?t @ mt, snd ?t @ at)"
      "length mt = length sqs" "length at = length sqs"
      "\<And>i. i < length sqs \<Longrightarrow> entry_ok ds (sqs ! i) (mt ! i) (at ! i)"
    by blast
  have 1: "u_attack_table_loop ds (sq # sqs) tables
      = Some (fst tables @ (?msk # mt), snd tables @ (m # at))"
    using r(1) by (simp add: e(1,2,3))
  have 2: "entry_ok ds ((sq # sqs) ! i) ((?msk # mt) ! i) ((m # at) ! i)"
    if "i < length (sq # sqs)" for i
  proof (cases i)
    case 0
    with e(4) show ?thesis by simp
  next
    case (Suc j)
    with that r(4) [of j] show ?thesis by simp
  qed
  have "length (?msk # mt) = length (sq # sqs)" "length (m # at) = length (sq # sqs)"
    by (simp_all add: r(2,3))
  with 1 2 show ?case by blast
qed

lemma table_lookup_sliding:
  assumes ds: "set ds \<subseteq> dirs" and s: "s < 64"
  shows "\<exists>tables a. u_attack_table ds = Some tables
    \<and> u_sliding_attacks s occ ds = Some a \<and> table_lookup tables s occ = Inr a"
proof -
  have "\<forall>s\<in>set SQUARES. s < 64" by (simp add: SQUARES_def)
  from u_attack_table_loop_result [OF ds this, of "([], [])"] obtain mt at
    where r: "u_attack_table ds = Some (mt, at)"
      "\<And>i. i < length SQUARES \<Longrightarrow> entry_ok ds (SQUARES ! i) (mt ! i) (at ! i)"
    unfolding u_attack_table_def by auto
  from s have "entry_ok ds s (mt ! s) (at ! s)"
    using r(2) [of s] by (simp add: SQUARES_def)
  then have l: "(at ! s) (mt ! s AND occ) = u_sliding_attacks s occ ds"
    by (simp add: entry_ok_def)
  from u_sliding_attacks_total [OF ds s] obtain a where a: "u_sliding_attacks s occ ds = Some a"
    by blast
  have "table_lookup (mt, at) s occ = Inr a"
    by (simp add: table_lookup_def map_at_def l a)
  with r(1) a show ?thesis by blast
qed

text \<open>
  C7. For every square \<open>s\<close> and every occupancy bitboard \<open>occ\<close>, the runtime table
  lookup, \<^verbatim>\<open>BB_DIAG_ATTACKS[s]\<close> at the key \<^verbatim>\<open>occ & BB_DIAG_MASKS[s]\<close> and likewise
  \<^verbatim>\<open>BB_FILE_ATTACKS\<close> and \<^verbatim>\<open>BB_RANK_ATTACKS\<close> with their masks, equals the reference
  algorithm \<^verbatim>\<open>_sliding_attacks(s, occ, deltas)\<close> of the same direction family: the
  construction of the tables ends, the reference algorithm ends, the key is in the map
  and the entry is the reference value.
\<close>

theorem attack_table_lookup_matches_sliding_attacks:
  assumes "s < 64" and "deltas \<in> {u_DIAG, u_FILE, u_RANK}"
  shows "\<exists>tables a. u_attack_table deltas = Some tables
    \<and> u_sliding_attacks s occ deltas = Some a \<and> table_lookup tables s occ = Inr a"
proof -
  from assms(2) have "set deltas \<subseteq> dirs"
    by (auto simp add: u_DIAG_def u_FILE_def u_RANK_def dirs_def)
  from this assms(1) show ?thesis by (rule table_lookup_sliding)
qed

theorem attack_table_lookup_matches_sliding_attacks_witness:
  "(27 :: nat) < 64 \<and> u_DIAG \<in> {u_DIAG, u_FILE, u_RANK}
   \<and> (\<exists>tables a. u_attack_table u_DIAG = Some tables
      \<and> u_sliding_attacks 27 (BB_SQUARES 45) u_DIAG = Some a
      \<and> table_lookup tables 27 (BB_SQUARES 45) = Inr a)"
  using attack_table_lookup_matches_sliding_attacks [of 27 u_DIAG "BB_SQUARES 45"] by simp

end
